theory Spec2Isabelle
  imports Main "HOL-Library.Sublist"
begin


section \<open>Strings, bytes and the library routines the program calls\<close>

text \<open>
  A Go string is a sequence of bytes, here a \<open>char list\<close>. The program's own text is
  ASCII; where a library routine works on Unicode code points (case folding in
  \<open>(?i)\<close>, white space in \<open>strings.TrimSpace\<close>) the UTF-8 byte sequences of the code
  points concerned are written out.
\<close>

abbreviation CR :: char where "CR \<equiv> CHR 0x0D"
abbreviation LF :: char where "LF \<equiv> CHR 0x0A"

definition digitChars :: "char list" where
  "digitChars = ''0123456789''"

definition isDigit :: "char \<Rightarrow> bool" where
  "isDigit c = (c \<in> set digitChars)"

text \<open>\<open>strings.HasPrefix\<close> and \<open>strings.TrimPrefix\<close>.\<close>

definition HasPrefix :: "string \<Rightarrow> string \<Rightarrow> bool" where
  "HasPrefix s p = (take (length p) s = p)"

definition TrimPrefix :: "string \<Rightarrow> string \<Rightarrow> string" where
  "TrimPrefix s p = (if HasPrefix s p then drop (length p) s else s)"

text \<open>\<open>strings.TrimRight s cutset\<close> for an ASCII cutset: every trailing byte of the
  cutset goes.\<close>

definition TrimRight :: "string \<Rightarrow> string \<Rightarrow> string" where
  "TrimRight s cutset = rev (dropWhile (\<lambda>c. c \<in> set cutset) (rev s))"

text \<open>
  \<open>strings.TrimSpace\<close> removes leading and trailing white space as Unicode defines it
  (\<open>unicode.IsSpace\<close>): the six ASCII characters, U+0085, U+00A0, U+1680,
  U+2000 to U+200A, U+2028, U+2029, U+202F, U+205F and U+3000, each given here by its
  UTF-8 encoding.
\<close>

definition spaceRunes :: "string list" where
  "spaceRunes =
    [[CHR 0x09], [LF], [CHR 0x0B], [CHR 0x0C], [CR], [CHR 0x20],
     [CHR 0xC2, CHR 0x85], [CHR 0xC2, CHR 0xA0],
     [CHR 0xE1, CHR 0x9A, CHR 0x80],
     [CHR 0xE2, CHR 0x80, CHR 0x80], [CHR 0xE2, CHR 0x80, CHR 0x81],
     [CHR 0xE2, CHR 0x80, CHR 0x82], [CHR 0xE2, CHR 0x80, CHR 0x83],
     [CHR 0xE2, CHR 0x80, CHR 0x84], [CHR 0xE2, CHR 0x80, CHR 0x85],
     [CHR 0xE2, CHR 0x80, CHR 0x86], [CHR 0xE2, CHR 0x80, CHR 0x87],
     [CHR 0xE2, CHR 0x80, CHR 0x88], [CHR 0xE2, CHR 0x80, CHR 0x89],
     [CHR 0xE2, CHR 0x80, CHR 0x8A],
     [CHR 0xE2, CHR 0x80, CHR 0xA8], [CHR 0xE2, CHR 0x80, CHR 0xA9],
     [CHR 0xE2, CHR 0x80, CHR 0xAF],
     [CHR 0xE2, CHR 0x81, CHR 0x9F],
     [CHR 0xE3, CHR 0x80, CHR 0x80]]"

text \<open>The number of bytes of the white-space rune a string starts with (0 if none),
  looked up in a list of encodings (the reversed ones for the rune a string ends with).\<close>

definition spaceWidth :: "string list \<Rightarrow> string \<Rightarrow> nat" where
  "spaceWidth runes s =
     (case filter (\<lambda>r. take (length r) s = r) runes of [] \<Rightarrow> 0 | r # _ \<Rightarrow> length r)"

function trimLeftSpace :: "string list \<Rightarrow> string \<Rightarrow> string" where
  "trimLeftSpace runes s =
     (if 0 < spaceWidth runes s \<and> s \<noteq> [] then trimLeftSpace runes (drop (spaceWidth runes s) s)
      else s)"
  by pat_completeness auto
termination
  by (relation "measure (\<lambda>(runes, s). length s)") auto

definition TrimSpace :: "string \<Rightarrow> string" where
  "TrimSpace s =
     rev (trimLeftSpace (map rev spaceRunes) (rev (trimLeftSpace spaceRunes s)))"

text \<open>
  Errors are Go \<open>error\<close> values: made by \<open>errors.New\<close>, returned by \<open>strconv\<close>
  (\<open>*strconv.NumError\<close>), returned by the GitHub client, or wrapped by
  \<open>errors.Wrapf\<close>. \<open>Error\<close> is the method giving the message.
\<close>

datatype numReason = ErrSyntax | ErrRange

datatype error =
    ErrorsNew string
  | NumError string string numReason
  | ApiError string
  | Wrapf string error

text \<open>\<open>strconv.Quote\<close>, for text without characters to escape (it is applied to what
  \<open>Atoi\<close> was given, here always a string of digits).\<close>

definition Quote :: "string \<Rightarrow> string" where
  "Quote s = [CHR 0x22] @ s @ [CHR 0x22]"

fun Error :: "error \<Rightarrow> string" where
  "Error (ErrorsNew m) = m"
| "Error (NumError fn num why) =
     ''strconv.'' @ fn @ '': parsing '' @ Quote num @ '': ''
     @ (case why of ErrSyntax \<Rightarrow> ''invalid syntax'' | ErrRange \<Rightarrow> ''value out of range'')"
| "Error (ApiError m) = m"
| "Error (Wrapf m e) = m @ '': '' @ Error e"

text \<open>
  \<open>strconv.Atoi\<close> on a 64-bit platform: an optional sign, then decimal digits only; a
  value outside the range of \<open>int\<close> is an error.
\<close>

definition digitVal :: "char \<Rightarrow> int" where
  "digitVal c = int (of_char c) - 48"

definition decimal :: "string \<Rightarrow> int" where
  "decimal ds = foldl (\<lambda>v c. 10 * v + digitVal c) 0 ds"

definition Atoi :: "string \<Rightarrow> error + int" where
  "Atoi s =
     (let neg = (case s of [] \<Rightarrow> False | c # _ \<Rightarrow> c = CHR ''-'');
          ds = (case s of [] \<Rightarrow> [] | c # r \<Rightarrow> if c = CHR ''-'' \<or> c = CHR ''+'' then r else s)
      in if ds = [] \<or> \<not> list_all isDigit ds then Inl (NumError ''Atoi'' s ErrSyntax)
         else if neg
         then (if 2 ^ 63 < decimal ds then Inl (NumError ''Atoi'' s ErrRange)
               else Inr (- decimal ds))
         else (if 2 ^ 63 - 1 < decimal ds then Inl (NumError ''Atoi'' s ErrRange)
               else Inr (decimal ds)))"

text \<open>\<open>fmt.Sprintf\<close> with the verb \<open>%d\<close>.\<close>

function natDigits :: "nat \<Rightarrow> string" where
  "natDigits n = (if n < 10 then [digitChars ! n] else natDigits (n div 10) @ [digitChars ! (n mod 10)])"
  by pat_completeness auto
termination
  by (relation "measure id") auto

definition Itoa :: "int \<Rightarrow> string" where
  "Itoa i = (if i < 0 then CHR ''-'' # natDigits (nat (- i)) else natDigits (nat i))"

text \<open>
  \<open>bufio.Scanner\<close> with the default split function \<open>ScanLines\<close>, one call of \<open>Scan\<close>
  followed by \<open>Text\<close>: the bytes before the first line feed, without one trailing
  carriage return. The scanner's buffer holds at most \<open>MaxScanTokenSize\<close> = 65536 bytes;
  if the line and its terminator do not fit, \<open>Scan\<close> fails and \<open>Text\<close> is empty.
\<close>

definition dropCR :: "string \<Rightarrow> string" where
  "dropCR l = (if l \<noteq> [] \<and> last l = CR then butlast l else l)"

definition scanFirstLine :: "string \<Rightarrow> string" where
  "scanFirstLine s =
     (let l = takeWhile (\<lambda>c. c \<noteq> LF) s
      in if 65536 \<le> int (length l) then [] else dropCR l)"

section \<open>Regular expressions\<close>

text \<open>
  The patterns of the program, as syntax trees. \<open>Dot\<close> is \<open>.\<close> (any character but a line
  feed), \<open>Cls\<close> a character class, \<open>Star\<close> the greedy \<open>*\<close>, \<open>Grp n name\<close> the capturing
  group number \<open>n\<close>, named or not. \<open>x+\<close> is \<open>Seq x (Star x)\<close> and \<open>x?\<close> is \<open>Alt x Eps\<close>.
\<close>

datatype re =
    Eps
  | Chr char
  | Dot
  | Cls "char list"
  | Seq re re
  | Alt re re
  | Star re
  | Grp nat string re

type_synonym caps = "nat \<Rightarrow> string option"

text \<open>
  Go's \<open>regexp\<close> returns the match a backtracking search would find first (leftmost,
  then first alternative, then greedy). \<open>ms r s cp\<close> lists, in that order of preference,
  every way \<open>r\<close> matches at the start of \<open>s\<close>: the rest of the input and the groups
  captured. A repetition stops when an iteration consumes nothing (so that on the empty
  input it matches the empty string only).
\<close>

function (sequential) ms :: "re \<Rightarrow> string \<Rightarrow> caps \<Rightarrow> (string \<times> caps) list" where
  "ms Eps s cp = [(s, cp)]"
| "ms (Chr c) s cp = (case s of [] \<Rightarrow> [] | x # xs \<Rightarrow> if x = c then [(xs, cp)] else [])"
| "ms Dot s cp = (case s of [] \<Rightarrow> [] | x # xs \<Rightarrow> if x \<noteq> LF then [(xs, cp)] else [])"
| "ms (Cls cs) s cp = (case s of [] \<Rightarrow> [] | x # xs \<Rightarrow> if x \<in> set cs then [(xs, cp)] else [])"
| "ms (Seq a b) s cp = concat (map (\<lambda>(s', cp'). ms b s' cp') (ms a s cp))"
| "ms (Alt a b) s cp = ms a s cp @ ms b s cp"
| "ms (Star a) [] cp = [([], cp)]"
| "ms (Star a) (x # xs) cp =
     concat (map (\<lambda>(s', cp'). if length s' < length (x # xs) then ms (Star a) s' cp' else [])
                 (ms a (x # xs) cp))
     @ [(x # xs, cp)]"
| "ms (Grp n name a) s cp =
     map (\<lambda>(s', cp'). (s', cp'(n \<mapsto> take (length s - length s') s))) (ms a s cp)"
  by pat_completeness auto
termination
  by (relation "measures [\<lambda>(r, s, cp). size r, \<lambda>(r, s, cp). length s]") auto

fun Lit :: "string \<Rightarrow> re" where
  "Lit [] = Eps"
| "Lit (c # cs) = Seq (Chr c) (Lit cs)"

definition Plus :: "re \<Rightarrow> re" where
  "Plus r = Seq r (Star r)"

definition Opt :: "re \<Rightarrow> re" where
  "Opt r = Alt r Eps"

text \<open>The Perl classes for a digit and for white space, in RE2 syntax \<open>[0-9]\<close> and
  tab, line feed, form feed, carriage return and space.\<close>

definition reDigit :: re where
  "reDigit = Cls digitChars"

definition reSpace :: re where
  "reSpace = Cls [CHR 0x09, LF, CHR 0x0C, CR, CHR 0x20]"

text \<open>
  The flag \<open>(?i)\<close>: a letter matches both of its cases and every other code point of
  its simple case-folding orbit, which adds U+017F (long s) to \<open>s\<close> and U+212A (Kelvin
  sign) to \<open>k\<close>.
\<close>

definition lowers :: string where "lowers = ''abcdefghijklmnopqrstuvwxyz''"
definition uppers :: string where "uppers = ''ABCDEFGHIJKLMNOPQRSTUVWXYZ''"

definition foldChr :: "char \<Rightarrow> re" where
  "foldChr c =
     (let lu = (case map_of (zip lowers uppers) c of Some u \<Rightarrow> Some (c, u)
                | None \<Rightarrow> (case map_of (zip uppers lowers) c of Some l \<Rightarrow> Some (l, c)
                           | None \<Rightarrow> None))
      in case lu of None \<Rightarrow> Chr c
         | Some (l, u) \<Rightarrow>
             if l = CHR ''s'' then Alt (Chr l) (Alt (Chr u) (Lit [CHR 0xC5, CHR 0xBF]))
             else if l = CHR ''k'' then Alt (Chr l) (Alt (Chr u) (Lit [CHR 0xE2, CHR 0x84, CHR 0xAA]))
             else Alt (Chr l) (Chr u))"

fun foldCase :: "re \<Rightarrow> re" where
  "foldCase Eps = Eps"
| "foldCase (Chr c) = foldChr c"
| "foldCase Dot = Dot"
| "foldCase (Cls cs) =
     (if list_all (\<lambda>c. c \<notin> set lowers \<and> c \<notin> set uppers) cs then Cls cs
      else foldr Alt (map foldChr cs) (Cls []))"
| "foldCase (Seq a b) = Seq (foldCase a) (foldCase b)"
| "foldCase (Alt a b) = Alt (foldCase a) (foldCase b)"
| "foldCase (Star a) = Star (foldCase a)"
| "foldCase (Grp n name a) = Grp n name (foldCase a)"

text \<open>
  The unanchored search: the first position, from the left, where the pattern matches,
  with the preferred match there. The result is the text skipped before the match, the
  text left after it and the captures.
\<close>

fun search :: "re \<Rightarrow> string \<Rightarrow> (string \<times> string \<times> caps) option" where
  "search r [] =
     (case ms r [] Map.empty of [] \<Rightarrow> None | (rest, cp) # _ \<Rightarrow> Some ([], rest, cp))"
| "search r (c # cs) =
     (case ms r (c # cs) Map.empty of
        (rest, cp) # _ \<Rightarrow> Some ([], rest, cp)
      | [] \<Rightarrow> (case search r cs of None \<Rightarrow> None
               | Some (pre, rest, cp) \<Rightarrow> Some (c # pre, rest, cp)))"

definition MatchString :: "re \<Rightarrow> string \<Rightarrow> bool" where
  "MatchString r s = (search r s \<noteq> None)"

fun NumSubexp :: "re \<Rightarrow> nat" where
  "NumSubexp (Seq a b) = max (NumSubexp a) (NumSubexp b)"
| "NumSubexp (Alt a b) = max (NumSubexp a) (NumSubexp b)"
| "NumSubexp (Star a) = NumSubexp a"
| "NumSubexp (Grp n name a) = max n (NumSubexp a)"
| "NumSubexp _ = 0"

fun groupNames :: "re \<Rightarrow> (nat \<times> string) list" where
  "groupNames (Seq a b) = groupNames a @ groupNames b"
| "groupNames (Alt a b) = groupNames a @ groupNames b"
| "groupNames (Star a) = groupNames a"
| "groupNames (Grp n name a) = (n, name) # groupNames a"
| "groupNames _ = []"

text \<open>\<open>SubexpNames\<close>: the name of every group by number, the empty name for the whole
  match (number 0) and for an unnamed group.\<close>

definition SubexpNames :: "re \<Rightarrow> string list" where
  "SubexpNames r =
     [] # map (\<lambda>i. case map_of (groupNames r) i of None \<Rightarrow> [] | Some name \<Rightarrow> name)
              [1 ..< Suc (NumSubexp r)]"

text \<open>The slice a match is reported as: the matched text, then the text of each group
  (empty for a group that took no part).\<close>

definition submatches :: "re \<Rightarrow> string \<Rightarrow> string \<times> string \<times> caps \<Rightarrow> string list" where
  "submatches r s m =
     (case m of (pre, rest, cp) \<Rightarrow>
        take (length s - length pre - length rest) (drop (length pre) s)
        # map (\<lambda>i. case cp i of None \<Rightarrow> [] | Some g \<Rightarrow> g) [1 ..< Suc (NumSubexp r)])"

definition FindStringSubmatch :: "re \<Rightarrow> string \<Rightarrow> string list" where
  "FindStringSubmatch r s = (case search r s of None \<Rightarrow> [] | Some m \<Rightarrow> submatches r s m)"

text \<open>
  \<open>FindAllStringSubmatch\<close> with \<open>n = -1\<close> and \<open>ReplaceAllString\<close> go on from the end of
  each match. Every pattern they are called with in this program consumes at least one
  character, and the two definitions are written for such patterns: they stop after a
  match that consumed nothing. The replacement text is taken literally (the program only
  passes the empty string).
\<close>

function FindAllStringSubmatch :: "re \<Rightarrow> string \<Rightarrow> string list list" where
  "FindAllStringSubmatch r s =
     (case search r s of None \<Rightarrow> []
      | Some (pre, rest, cp) \<Rightarrow>
          submatches r s (pre, rest, cp)
          # (if length rest < length s then FindAllStringSubmatch r rest else []))"
  by pat_completeness auto
termination
  by (relation "measure (\<lambda>(r, s). length s)") auto

function ReplaceAllString :: "re \<Rightarrow> string \<Rightarrow> string \<Rightarrow> string" where
  "ReplaceAllString r s repl =
     (case search r s of None \<Rightarrow> s
      | Some (pre, rest, cp) \<Rightarrow>
          pre @ repl @ (if length rest < length s then ReplaceAllString r rest repl else rest))"
  by pat_completeness auto
termination
  by (relation "measure (\<lambda>(r, s, repl). length s)") auto

section \<open>The data of the program\<close>

text \<open>
  What the program reads of the GitHub resources: of a repository commit its SHA, its
  message and the login of its author (the getters give the empty string for what is
  absent); of a git commit the committer's date; of a pull request its number, body,
  label names and the login of its user; of an issue its label names. The message of a
  commit, the date of a boundary commit and the name of a label are read through their
  pointers without a check, and are taken to be there.
\<close>

record RepositoryCommit =
  SHA :: string
  Message :: string
  AuthorLogin :: string

record GitCommit =
  CommitterDate :: int

record PullRequest =
  pr_Number :: int
  pr_Body :: string
  pr_Labels :: "string list"
  pr_UserLogin :: string

record Issue =
  issue_Labels :: "string list"

record ReleaseNote =
  Commit :: string
  Text :: string
  Markdown :: string
  Author :: string
  AuthorUrl :: string
  PrUrl :: string
  PrNumber :: int
  Areas :: "string list"
  Kinds :: "string list"
  SIGs :: "string list"
  Feature :: bool
  Duplicate :: bool
  ActionRequired :: bool

record githubApiConfig =
  org :: string
  repo :: string
  branch :: string

type_synonym githubApiOption = "githubApiConfig \<Rightarrow> githubApiConfig"

definition WithOrg :: "string \<Rightarrow> githubApiOption" where
  "WithOrg v = (\<lambda>c. c\<lparr>org := v\<rparr>)"

definition WithRepo :: "string \<Rightarrow> githubApiOption" where
  "WithRepo v = (\<lambda>c. c\<lparr>repo := v\<rparr>)"

definition WithBranch :: "string \<Rightarrow> githubApiOption" where
  "WithBranch v = (\<lambda>c. c\<lparr>branch := v\<rparr>)"

definition configFromOpts :: "githubApiOption list \<Rightarrow> githubApiConfig" where
  "configFromOpts opts =
     foldl (\<lambda>c opt. opt c) \<lparr>org = ''netdata'', repo = ''netdata'', branch = ''master''\<rparr> opts"

text \<open>
  The GitHub client is the outside world. Each call takes the state \<open>'w\<close> of that world
  and returns the new one with its answer, so that two calls with the same arguments
  may answer differently; a failed call gives the message of its error. The arguments
  are the organisation, the repository and what is asked for. The context handle that
  the program passes along with them belongs to the world and is not an argument here.
\<close>

record CommitsListOptions =
  clo_SHA :: string
  Since :: int
  Until :: int
  Page :: int
  PerPage :: int

record Response =
  LastPage :: int

record 'w Client =
  GitGetCommit :: "string \<Rightarrow> string \<Rightarrow> string \<Rightarrow> 'w \<Rightarrow> (string + GitCommit) \<times> 'w"
  RepositoriesListCommits ::
    "string \<Rightarrow> string \<Rightarrow> CommitsListOptions \<Rightarrow> 'w
       \<Rightarrow> (string + RepositoryCommit list \<times> Response) \<times> 'w"
  PullRequestsGet :: "string \<Rightarrow> string \<Rightarrow> int \<Rightarrow> 'w \<Rightarrow> (string + PullRequest) \<times> 'w"
  IssuesGet :: "string \<Rightarrow> string \<Rightarrow> int \<Rightarrow> 'w \<Rightarrow> (string + Issue) \<times> 'w"

section \<open>Labels\<close>

definition GetIssueLabels :: "Issue \<Rightarrow> string list" where
  "GetIssueLabels issue = foldl (\<lambda>labels label. labels @ [label]) [] (issue_Labels issue)"

definition GetPRLabels :: "PullRequest \<Rightarrow> string list" where
  "GetPRLabels pr = foldl (\<lambda>labels label. labels @ [label]) [] (pr_Labels pr)"

fun StringsWithPrefix :: "string list \<Rightarrow> string \<Rightarrow> string list" where
  "StringsWithPrefix [] p = []"
| "StringsWithPrefix (x # xs) p =
     (if HasPrefix x p then TrimPrefix x p # StringsWithPrefix xs p else StringsWithPrefix xs p)"

fun IsActionRequiredLabels :: "string list \<Rightarrow> bool" where
  "IsActionRequiredLabels [] = False"
| "IsActionRequiredLabels (label # labels) =
     (if label = ''release-note-action-required'' then True else IsActionRequiredLabels labels)"

definition IsActionRequired :: "PullRequest \<Rightarrow> bool" where
  "IsActionRequired pr = IsActionRequiredLabels (pr_Labels pr)"

fun HasString :: "string list \<Rightarrow> string \<Rightarrow> bool" where
  "HasString [] x = False"
| "HasString (n # a) x = (if x = n then True else HasString a x)"

section \<open>Pull request and issue of a commit\<close>

text \<open>The pattern \<^verbatim>\<open>\(#(?P<number>\d+)\)\<close>.\<close>

definition prExp :: re where
  "prExp = Seq (Lit ''(#'') (Seq (Grp 1 ''number'' (Plus reDigit)) (Lit '')''))"

text \<open>
  The loop over \<open>SubexpNames\<close> that the program runs after a match: the text of every
  named group, by name. Reading a name that is not there gives the empty string.
\<close>

definition namedGroups :: "re \<Rightarrow> string list \<Rightarrow> (string \<rightharpoonup> string)" where
  "namedGroups exp match =
     foldl (\<lambda>result (i, name). if i \<noteq> 0 \<and> name \<noteq> [] then result(name \<mapsto> match ! i) else result)
           Map.empty (enumerate 0 (SubexpNames exp))"

definition lookupStr :: "(string \<rightharpoonup> string) \<Rightarrow> string \<Rightarrow> string" where
  "lookupStr result name = (case result name of None \<Rightarrow> [] | Some v \<Rightarrow> v)"

definition noMatchPR :: string where
  "noMatchPR = ''no matches found when parsing PR from commit''"

definition PRFromCommit ::
  "'w Client \<Rightarrow> RepositoryCommit \<Rightarrow> githubApiOption list \<Rightarrow> 'w \<Rightarrow> (error + PullRequest) \<times> 'w"
where
  "PRFromCommit client commit opts w =
     (let c = configFromOpts opts;
          match = FindStringSubmatch prExp (Message commit)
      in if length match = 0 then (Inl (ErrorsNew noMatchPR), w)
         else (case Atoi (lookupStr (namedGroups prExp match) ''number'') of
                 Inl err \<Rightarrow> (Inl err, w)
               | Inr number \<Rightarrow>
                   (case PullRequestsGet client (org c) (repo c) number w of
                      (Inl msg, w') \<Rightarrow> (Inl (ApiError msg), w')
                    | (Inr pr, w') \<Rightarrow> (Inr pr, w'))))"

text \<open>The pattern \<^verbatim>\<open>(?i)(Close|Closes|Closed|Fix|Fixes|Fixed|Resolve|Resolves|Resolved) #?(?P<number>\d+)\<close>.\<close>

fun AltList :: "re list \<Rightarrow> re" where
  "AltList [] = Eps"
| "AltList [r] = r"
| "AltList (r # rs) = Alt r (AltList rs)"

definition CloseIssueKeywords :: re where
  "CloseIssueKeywords =
     AltList (map Lit [''Close'', ''Closes'', ''Closed'', ''Fix'', ''Fixes'', ''Fixed'',
                       ''Resolve'', ''Resolves'', ''Resolved''])"

definition issueExp :: re where
  "issueExp =
     foldCase (Seq (Grp 1 [] CloseIssueKeywords)
                   (Seq (Lit '' '') (Seq (Opt (Chr CHR ''#'')) (Grp 2 ''number'' (Plus reDigit)))))"

definition noMatchIssues :: string where
  "noMatchIssues = ''no matches found when parsing Issues from commit''"

text \<open>The loop over the group names, reading the first match only; it stops at the
  first number that \<open>Atoi\<close> refuses.\<close>

fun issuesLoop :: "(nat \<times> string) list \<Rightarrow> string list \<Rightarrow> int list \<Rightarrow> error + int list" where
  "issuesLoop [] m issues = Inr issues"
| "issuesLoop ((i, name) # rest) m issues =
     (if i \<noteq> 0 \<and> name \<noteq> []
      then (case Atoi (m ! i) of Inl err \<Rightarrow> Inl err
            | Inr number \<Rightarrow> issuesLoop rest m (issues @ [number]))
      else issuesLoop rest m issues)"

definition IssueNumbersFromCommit :: "RepositoryCommit \<Rightarrow> error + int list" where
  "IssueNumbersFromCommit commit =
     (let matches = FindAllStringSubmatch issueExp (Message commit)
      in if length matches = 0 then Inl (ErrorsNew noMatchIssues)
         else issuesLoop (enumerate 0 (SubexpNames issueExp)) (matches ! 0) [])"

definition GetIssue ::
  "'w Client \<Rightarrow> int \<Rightarrow> githubApiOption list \<Rightarrow> 'w \<Rightarrow> (error + Issue) \<times> 'w"
where
  "GetIssue client number opts w =
     (let c = configFromOpts opts
      in case IssuesGet client (org c) (repo c) number w of
           (Inl msg, w') \<Rightarrow> (Inl (ApiError msg), w')
         | (Inr issue, w') \<Rightarrow> (Inr issue, w'))"

section \<open>The text of a note\<close>

definition stripActionRequired :: "string \<Rightarrow> string" where
  "stripActionRequired note =
     foldl (\<lambda>note exp. ReplaceAllString exp note [])
           note
           [foldCase (Seq (Lit ''[action required]'') reSpace),
            foldCase (Seq (Lit ''action required:'') reSpace)]"

definition stripStar :: "string \<Rightarrow> string" where
  "stripStar note = ReplaceAllString (foldCase (Seq (Chr CHR ''*'') reSpace)) note []"

definition noteExps :: "re list" where
  "noteExps =
     [Seq (Lit (''```release-note'' @ [CR, LF])) (Grp 1 ''note'' (Plus Dot)),
      Seq (Lit (''```dev-release-note'' @ [CR, LF])) (Grp 1 ''note'' (Plus Dot)),
      Seq (Lit (''```'' @ [CR, LF])) (Seq (Grp 1 ''note'' (Plus Dot)) (Lit ([CR, LF] @ ''```''))),
      Seq (Lit (''```release-note'' @ [LF])) (Seq (Grp 1 ''note'' (Plus Dot)) (Lit ([LF] @ ''```'')))]"

definition noMatchNote :: string where
  "noMatchNote = ''no matches found when parsing note text from commit string''"

fun noteLoop :: "re list \<Rightarrow> string \<Rightarrow> error + string" where
  "noteLoop [] s = Inl (ErrorsNew noMatchNote)"
| "noteLoop (exp # exps) s =
     (let match = FindStringSubmatch exp s
      in if length match = 0 then noteLoop exps s
         else (let result = namedGroups exp match;
                   note = TrimRight (lookupStr result ''note'') [CR]
               in Inr (stripStar (stripActionRequired note))))"

definition NoteTextFromString :: "string \<Rightarrow> error + string" where
  "NoteTextFromString s = noteLoop noteExps s"

section \<open>Assembling a note\<close>

text \<open>
  \<open>ReleaseNoteFromCommit\<close>. The helper \<open>prettifySigList\<close> is defined elsewhere in the
  package and is a parameter here; it only shapes the suffix of the markdown line.
  \<open>noteOf\<close> is the part of the function after the pull request and the issue (if any)
  are known.
\<close>

definition noteText :: "RepositoryCommit \<Rightarrow> string" where
  "noteText commit = TrimSpace (ReplaceAllString prExp (scanFirstLine (Message commit)) [])"

definition noteOf ::
  "(string list \<Rightarrow> string) \<Rightarrow> RepositoryCommit \<Rightarrow> PullRequest \<Rightarrow> Issue option \<Rightarrow> ReleaseNote"
where
  "noteOf prettifySigList commit pr issue =
     (let text = noteText commit;
          isFeature =
            (if HasString (StringsWithPrefix (GetPRLabels pr) ''kind/'') ''feature'' then True
             else if issue \<noteq> None \<and> \<not> HasString (GetIssueLabels (the issue)) ''bug'' then True
             else False);
          areas0 = StringsWithPrefix (GetPRLabels pr) ''area/'';
          areas = (if issue \<noteq> None \<and> length areas0 = 0
                   then StringsWithPrefix (GetIssueLabels (the issue)) ''area/'' else areas0);
          author = pr_UserLogin pr;
          authorUrl = ''https://github.com/'' @ author;
          prUrl = ''https://github.com/netdata/netdata/pull/'' @ Itoa (pr_Number pr);
          sigsListPretty = prettifySigList (StringsWithPrefix (GetPRLabels pr) ''sig/'');
          noteSuffix =
            (if (IsActionRequired pr \<or> isFeature) \<and> sigsListPretty \<noteq> []
             then ''Courtesy of '' @ sigsListPretty else []);
          IsDuplicate =
            (if IsActionRequired pr \<or> isFeature then False
             else if 1 < length (StringsWithPrefix (GetPRLabels pr) ''sig/'') then True
             else False);
          markdown0 = text @ '' ([#'' @ Itoa (pr_Number pr) @ ''](''  @ prUrl @ ''), [@''
                      @ author @ ''](''  @ authorUrl @ ''))'';
          markdown = (if noteSuffix \<noteq> [] then markdown0 @ '' '' @ noteSuffix else markdown0)
      in \<lparr>Commit = SHA commit, Text = text, Markdown = markdown, Author = author,
          AuthorUrl = authorUrl, PrUrl = prUrl, PrNumber = pr_Number pr,
          Areas = areas,
          Kinds = StringsWithPrefix (GetPRLabels pr) ''kind/'',
          SIGs = StringsWithPrefix (GetPRLabels pr) ''sig/'',
          Feature = isFeature, Duplicate = IsDuplicate,
          ActionRequired = IsActionRequired pr\<rparr>)"

definition ReleaseNoteFromCommit ::
  "(string list \<Rightarrow> string) \<Rightarrow> RepositoryCommit \<Rightarrow> 'w Client \<Rightarrow> githubApiOption list \<Rightarrow> 'w
     \<Rightarrow> (error + ReleaseNote) \<times> 'w"
where
  "ReleaseNoteFromCommit prettifySigList commit client opts w =
     (case PRFromCommit client commit opts w of
        (Inl err, w1) \<Rightarrow>
          (Inl (Wrapf (''error parsing release note from commit '' @ SHA commit) err), w1)
      | (Inr pr, w1) \<Rightarrow>
          (case IssueNumbersFromCommit commit of
             Inl err \<Rightarrow> (Inr (noteOf prettifySigList commit pr None), w1)
           | Inr issues \<Rightarrow>
               if 0 < length issues
               then (case GetIssue client (issues ! 0) opts w1 of
                       (Inl err, w2) \<Rightarrow>
                         (Inl (Wrapf (''error prasing release note from commit '' @ SHA commit) err),
                          w2)
                     | (Inr issue, w2) \<Rightarrow>
                         (Inr (noteOf prettifySigList commit pr (Some issue)), w2))
               else (Inr (noteOf prettifySigList commit pr None), w1)))"

section \<open>Listing the commits\<close>

text \<open>The loop of \<open>ListCommits\<close> over the pages after the first; \<open>lastPage\<close> is what the
  first response said.\<close>

function listPages ::
  "'w Client \<Rightarrow> githubApiConfig \<Rightarrow> CommitsListOptions \<Rightarrow> int \<Rightarrow> RepositoryCommit list \<Rightarrow> 'w
     \<Rightarrow> (error + RepositoryCommit list) \<times> 'w"
where
  "listPages client c clo lastPage commits w =
     (if Page clo \<le> lastPage
      then (case RepositoriesListCommits client (org c) (repo c) clo w of
              (Inl msg, w') \<Rightarrow> (Inl (ApiError msg), w')
            | (Inr (commitPage, resp), w') \<Rightarrow>
                listPages client c (clo\<lparr>Page := Page clo + 1\<rparr>) lastPage
                          (foldl (\<lambda>commits commit. commits @ [commit]) commits commitPage) w')
      else (Inr commits, w))"
  by pat_completeness auto
termination
  by (relation "measure (\<lambda>(client, c, clo, lastPage, commits, w). nat (lastPage + 1 - Page clo))")
     auto

definition ListCommits ::
  "'w Client \<Rightarrow> string \<Rightarrow> string \<Rightarrow> githubApiOption list \<Rightarrow> 'w
     \<Rightarrow> (error + RepositoryCommit list) \<times> 'w"
where
  "ListCommits client start end opts w =
     (let c = configFromOpts opts
      in case GitGetCommit client (org c) (repo c) start w of
           (Inl msg, w1) \<Rightarrow> (Inl (ApiError msg), w1)
         | (Inr startCommit, w1) \<Rightarrow>
             (case GitGetCommit client (org c) (repo c) end w1 of
                (Inl msg, w2) \<Rightarrow> (Inl (ApiError msg), w2)
              | (Inr endCommit, w2) \<Rightarrow>
                  (let clo = \<lparr>clo_SHA = branch c, Since = CommitterDate startCommit,
                              Until = CommitterDate endCommit, Page = 1, PerPage = 100\<rparr>
                   in case RepositoriesListCommits client (org c) (repo c) clo w2 of
                        (Inl msg, w3) \<Rightarrow> (Inl (ApiError msg), w3)
                      | (Inr (commits, resp), w3) \<Rightarrow>
                          listPages client c (clo\<lparr>Page := Page clo + 1\<rparr>) (LastPage resp)
                                    commits w3)))"

text \<open>
  The two filter tables of \<open>ListCommitsWithNotes\<close>, in the order of the source. All
  patterns compile, so \<open>regexp.MatchString\<close> never returns an error. The function
  never writes to the logger it is given, and the lines it and \<open>ReleaseNoteFromCommit\<close>
  print to the standard error stream are left out.
\<close>

definition exclusionFilters :: "re list" where
  "exclusionFilters =
     [Lit (''```release-note'' @ [CR, LF] @ ''NONE''),
      Seq (Lit (''```release-note'' @ [CR, LF])) (Seq (Plus reSpace) (Lit ''NONE'')),
      Lit (''```release-note'' @ [CR, LF] @ ''NONE''),
      Lit (''```release-note'' @ [CR, LF] @ [CHR 0x22] @ ''NONE'' @ [CHR 0x22]),
      Lit (''```release-note'' @ [CR, LF] @ ''None''),
      Lit (''```release-note'' @ [CR, LF] @ ''none''),
      Lit (''```release-note'' @ [CR, LF] @ ''N/A''),
      Lit (''```release-note'' @ [CR, LF] @ [CR, LF] @ ''```''),
      Lit (''```release-note'' @ [CR, LF] @ ''```''),
      Lit ''/release-note-none'',
      Lit ([CR, LF] @ [CR, LF] @ ''NONE''),
      Lit (''```NONE'' @ [CR, LF] @ ''```''),
      Lit (''```release-note '' @ [CR, LF] @ ''NONE'' @ [CR, LF] @ ''```''),
      Lit (''NONE'' @ [CR, LF] @ ''```''),
      Lit ([CR, LF] @ ''None''),
      Lit ([CR, LF] @ ''NONE'' @ [CR, LF])]"

definition inclusionFilters :: "re list" where
  "inclusionFilters =
     [Star Dot,
      Lit ''release-note'',
      Seq (Lit ''Does this PR introduce a user-facing chang'') (Opt (Chr CHR ''e''))]"

text \<open>The first loop leaves at the first filter that matches; the second one runs to
  the end and appends the commit at every filter that matches.\<close>

fun excludedLoop :: "re list \<Rightarrow> string \<Rightarrow> bool" where
  "excludedLoop [] body = False"
| "excludedLoop (flt # filters) body =
     (if MatchString flt body then True else excludedLoop filters body)"

fun includedLoop ::
  "re list \<Rightarrow> string \<Rightarrow> RepositoryCommit \<Rightarrow> RepositoryCommit list \<Rightarrow> RepositoryCommit list"
where
  "includedLoop [] body commit filteredCommits = filteredCommits"
| "includedLoop (flt # filters) body commit filteredCommits =
     includedLoop filters body commit
       (if MatchString flt body then filteredCommits @ [commit] else filteredCommits)"

text \<open>
  The loop over the commits. When \<open>PRFromCommit\<close> fails with another error than the
  one told by its message, the loop goes on with the nil pull request, whose body reads
  as the empty string.
\<close>

fun commitsLoop ::
  "'w Client \<Rightarrow> githubApiOption list \<Rightarrow> RepositoryCommit list \<Rightarrow> RepositoryCommit list \<Rightarrow> 'w
     \<Rightarrow> RepositoryCommit list \<times> 'w"
where
  "commitsLoop client opts [] filteredCommits w = (filteredCommits, w)"
| "commitsLoop client opts (commit # commits) filteredCommits w =
     (case PRFromCommit client commit opts w of
        (r, w') \<Rightarrow>
          if (case r of Inl err \<Rightarrow> Error err = noMatchPR | Inr pr \<Rightarrow> False)
          then commitsLoop client opts commits filteredCommits w'
          else (let body = (case r of Inl err \<Rightarrow> [] | Inr pr \<Rightarrow> pr_Body pr)
                in if excludedLoop exclusionFilters body
                   then commitsLoop client opts commits filteredCommits w'
                   else commitsLoop client opts commits
                          (includedLoop inclusionFilters body commit filteredCommits) w'))"

definition ListCommitsWithNotes ::
  "'w Client \<Rightarrow> string \<Rightarrow> string \<Rightarrow> githubApiOption list \<Rightarrow> 'w
     \<Rightarrow> (error + RepositoryCommit list) \<times> 'w"
where
  "ListCommitsWithNotes client start end opts w =
     (case ListCommits client start end opts w of
        (Inl err, w') \<Rightarrow> (Inl err, w')
      | (Inr commits, w') \<Rightarrow>
          (case commitsLoop client opts commits [] w' of
             (filteredCommits, w'') \<Rightarrow> (Inr filteredCommits, w'')))"

section \<open>Listing the notes\<close>

text \<open>
  The loop of \<open>ListReleaseNotes\<close>. Its state is the cache of the texts seen, the notes
  kept, the records written to the logger (the error and the SHA of each) and the
  world.
\<close>

type_synonym logRecord = "error \<times> string"

fun notesLoop ::
  "(string list \<Rightarrow> string) \<Rightarrow> 'w Client \<Rightarrow> githubApiOption list \<Rightarrow> RepositoryCommit list
     \<Rightarrow> string set \<Rightarrow> ReleaseNote list \<Rightarrow> logRecord list \<Rightarrow> 'w
     \<Rightarrow> ReleaseNote list \<times> logRecord list \<times> 'w"
where
  "notesLoop prettifySigList client opts [] dedupeCache notes logger w = (notes, logger, w)"
| "notesLoop prettifySigList client opts (commit # commits) dedupeCache notes logger w =
     (if AuthorLogin commit = ''netdatabot''
      then notesLoop prettifySigList client opts commits dedupeCache notes logger w
      else (case ReleaseNoteFromCommit prettifySigList commit client opts w of
              (Inl err, w') \<Rightarrow>
                notesLoop prettifySigList client opts commits dedupeCache notes
                          (logger @ [(err, SHA commit)]) w'
            | (Inr note, w') \<Rightarrow>
                if TrimSpace (Text note) = ''NONE''
                then notesLoop prettifySigList client opts commits dedupeCache notes logger w'
                else if Text note \<notin> dedupeCache
                then notesLoop prettifySigList client opts commits
                               (insert (Text note) dedupeCache) (notes @ [note]) logger w'
                else notesLoop prettifySigList client opts commits dedupeCache notes logger w'))"

definition ListReleaseNotes ::
  "(string list \<Rightarrow> string) \<Rightarrow> 'w Client \<Rightarrow> logRecord list \<Rightarrow> string \<Rightarrow> string
     \<Rightarrow> githubApiOption list \<Rightarrow> 'w
     \<Rightarrow> (error + ReleaseNote list) \<times> logRecord list \<times> 'w"
where
  "ListReleaseNotes prettifySigList client logger start end opts w =
     (case ListCommitsWithNotes client start end opts w of
        (Inl err, w') \<Rightarrow> (Inl err, logger, w')
      | (Inr commits, w') \<Rightarrow>
          (case notesLoop prettifySigList client opts commits {} [] logger w' of
             (notes, logger', w'') \<Rightarrow> (Inr notes, logger', w'')))"

section \<open>Notions the properties are stated with\<close>

text \<open>
  The issue that assembling a note for a commit fetches when the world is in state
  \<open>w1\<close> (the state the lookup of the pull request left): the issue of the first number
  found in the message, if there is one and the lookup succeeds.
\<close>

definition fetchedIssue ::
  "'w Client \<Rightarrow> RepositoryCommit \<Rightarrow> githubApiOption list \<Rightarrow> 'w \<Rightarrow> Issue option"
where
  "fetchedIssue client commit opts w1 =
     (case IssueNumbersFromCommit commit of
        Inl err \<Rightarrow> None
      | Inr issues \<Rightarrow>
          (case issues of [] \<Rightarrow> None
           | n # ns \<Rightarrow> (case fst (GetIssue client n opts w1) of
                          Inl err \<Rightarrow> None | Inr issue \<Rightarrow> Some issue)))"

text \<open>
  The assembly of the notes of a list of commits, one after the other, each in the world
  the one before left: for every commit not authored by the bot account, the commit with
  the note or the error it gave. \<open>successes\<close> are the notes, \<open>failures\<close> the errors
  with the SHA of their commit.
\<close>

fun assembleAll ::
  "(string list \<Rightarrow> string) \<Rightarrow> 'w Client \<Rightarrow> githubApiOption list \<Rightarrow> RepositoryCommit list \<Rightarrow> 'w
     \<Rightarrow> (RepositoryCommit \<times> (error + ReleaseNote)) list \<times> 'w"
where
  "assembleAll p client opts [] w = ([], w)"
| "assembleAll p client opts (commit # commits) w =
     (if AuthorLogin commit = ''netdatabot'' then assembleAll p client opts commits w
      else (case ReleaseNoteFromCommit p commit client opts w of
              (r, w') \<Rightarrow>
                (case assembleAll p client opts commits w' of
                   (rs, w'') \<Rightarrow> ((commit, r) # rs, w''))))"

fun successes :: "(RepositoryCommit \<times> (error + ReleaseNote)) list \<Rightarrow> ReleaseNote list" where
  "successes [] = []"
| "successes ((c, Inr n) # rs) = n # successes rs"
| "successes ((c, Inl e) # rs) = successes rs"

fun failures :: "(RepositoryCommit \<times> (error + ReleaseNote)) list \<Rightarrow> (error \<times> string) list" where
  "failures [] = []"
| "failures ((c, Inr n) # rs) = failures rs"
| "failures ((c, Inl e) # rs) = (e, SHA c) # failures rs"

text \<open>Keeping of each text the first note that has it, given the texts already seen.\<close>

fun keepFirst :: "string set \<Rightarrow> ReleaseNote list \<Rightarrow> ReleaseNote list" where
  "keepFirst seen [] = []"
| "keepFirst seen (n # ns) =
     (if Text n \<in> seen then keepFirst seen ns else n # keepFirst (insert (Text n) seen) ns)"

definition notNone :: "ReleaseNote \<Rightarrow> bool" where
  "notNone n = (TrimSpace (Text n) \<noteq> ''NONE'')"

text \<open>
  The match a pattern has at the start of a string, if any, and the search for the first
  position of a string where a matcher succeeds: the search gives the text skipped and
  the result of the matcher there.
\<close>

definition firstMatch :: "re \<Rightarrow> string \<Rightarrow> (string \<times> caps) option" where
  "firstMatch r s = (case ms r s Map.empty of [] \<Rightarrow> None | x # xs \<Rightarrow> Some x)"

fun scan :: "(string \<Rightarrow> 'a option) \<Rightarrow> string \<Rightarrow> (string \<times> 'a) option" where
  "scan m [] = (case m [] of None \<Rightarrow> None | Some a \<Rightarrow> Some ([], a))"
| "scan m (c # cs) =
     (case m (c # cs) of
        Some a \<Rightarrow> Some ([], a)
      | None \<Rightarrow> (case scan m cs of None \<Rightarrow> None | Some (pre, a) \<Rightarrow> Some (c # pre, a)))"

text \<open>
  A marker is the text \<open>(#\<close>, one or more digits, \<open>)\<close>. \<open>markerStrip\<close> reads a marker
  at the start of a string and gives its digits and what follows it; \<open>hasMarker\<close> says
  that a marker occurs somewhere in a string.
\<close>

fun markerStrip :: "string \<Rightarrow> (string \<times> string) option" where
  "markerStrip (a # b # r) =
     (if a = CHR ''('' \<and> b = CHR ''#'' \<and> takeWhile isDigit r \<noteq> []
         \<and> prefix '')'' (dropWhile isDigit r)
      then Some (takeWhile isDigit r, tl (dropWhile isDigit r)) else None)"
| "markerStrip s = None"

definition hasMarker :: "string \<Rightarrow> bool" where
  "hasMarker s =
     (\<exists>pre ds post. s = pre @ ''(#'' @ ds @ '')'' @ post \<and> ds \<noteq> [] \<and> list_all isDigit ds)"

text \<open>
  Removing every occurrence of what a matcher reads, from left to right: where the
  matcher succeeds on the text that is left, that text is replaced by what the
  matcher leaves; elsewhere one character is kept. \<open>afterMarker\<close> is the matcher of the
  marker.
\<close>

function deleteAll :: "(string \<Rightarrow> string option) \<Rightarrow> string \<Rightarrow> string" where
  "deleteAll m s =
     (case s of [] \<Rightarrow> []
      | c # cs \<Rightarrow>
          (case m s of
             Some rest \<Rightarrow> if length rest < length s then deleteAll m rest else c # deleteAll m cs
           | None \<Rightarrow> c # deleteAll m cs))"
  by pat_completeness auto
termination
  by (relation "measure (\<lambda>(m, s). length s)") auto

definition afterMarker :: "string \<Rightarrow> string option" where
  "afterMarker s = map_option snd (markerStrip s)"

text \<open>
  The text of a note as claim C5 words it: the first line with a marker at its end
  stripped, and the white space around the rest trimmed.
\<close>

definition stripTrailingMarker :: "string \<Rightarrow> string" where
  "stripTrailingMarker s =
     (case rev s of [] \<Rightarrow> s
      | c # r \<Rightarrow>
          if c = CHR '')'' \<and> takeWhile isDigit r \<noteq> [] \<and> prefix ''#('' (dropWhile isDigit r)
          then rev (drop 2 (dropWhile isDigit r)) else s)"

definition claimedText :: "string \<Rightarrow> string" where
  "claimedText msg = TrimSpace (stripTrailingMarker (TrimSpace (scanFirstLine msg)))"

text \<open>
  The markers that the clean-up of a note text removes. Two characters are the same
  letter if they are equal or are the two cases of a letter; \<open>ciPrefix\<close> reads a word at
  the start of a string whatever the case of its letters, and \<open>wordThenSpace\<close> reads the
  word and one white-space character after it. \<open>cleanNote\<close> is the clean-up: every
  trailing carriage return goes, then every occurrence of the three markers in turn.
\<close>

definition sameLetter :: "char \<Rightarrow> char \<Rightarrow> bool" where
  "sameLetter c x =
     (x = c \<or> (c, x) \<in> set (zip lowers uppers) \<or> (x, c) \<in> set (zip lowers uppers))"

fun ciPrefix :: "string \<Rightarrow> string \<Rightarrow> string option" where
  "ciPrefix [] s = Some s"
| "ciPrefix (c # cs) [] = None"
| "ciPrefix (c # cs) (x # xs) = (if sameLetter c x then ciPrefix cs xs else None)"

definition spaceChars :: "char list" where
  "spaceChars = [CHR 0x09, LF, CHR 0x0C, CR, CHR 0x20]"

definition wordThenSpace :: "string \<Rightarrow> string \<Rightarrow> string option" where
  "wordThenSpace word s =
     (case ciPrefix word s of
        None \<Rightarrow> None
      | Some r \<Rightarrow> (case r of [] \<Rightarrow> None
                   | x # rest \<Rightarrow> if x \<in> set spaceChars then Some rest else None))"

definition cleanNote :: "string \<Rightarrow> string" where
  "cleanNote g =
     deleteAll (wordThenSpace ''*'')
       (deleteAll (wordThenSpace ''action required:'')
          (deleteAll (wordThenSpace ''[action required]'')
             (rev (dropWhile (\<lambda>c. c = CR) (rev g)))))"

text \<open>
  The clean-up as claim C3 words it: one trailing carriage return trimmed, a leading
  marker of either kind stripped, a leading bullet stripped.
\<close>

definition stripLeadingCI :: "string \<Rightarrow> string \<Rightarrow> string" where
  "stripLeadingCI word s = (case ciPrefix word s of None \<Rightarrow> s | Some rest \<Rightarrow> rest)"

definition claimedCleanNote :: "string \<Rightarrow> string" where
  "claimedCleanNote g =
     stripLeadingCI ''* ''
       (stripLeadingCI ''action required:'' (stripLeadingCI ''[action required]'' (dropCR g)))"

section \<open>Concrete inputs\<close>

text \<open>
  A client answering from four tables (boundary commits by SHA, pages of commits by page
  number, pull requests and issues by number); its world counts the calls made. The
  stand-in for \<open>prettifySigList\<close> joins the names.
\<close>

definition stubClient ::
  "(string \<Rightarrow> string + GitCommit) \<Rightarrow> (int \<Rightarrow> string + RepositoryCommit list \<times> Response)
     \<Rightarrow> (int \<Rightarrow> string + PullRequest) \<Rightarrow> (int \<Rightarrow> string + Issue) \<Rightarrow> nat Client"
where
  "stubClient gc lc pg ig =
     \<lparr>GitGetCommit = (\<lambda>org repo sha w. (gc sha, Suc w)),
      RepositoriesListCommits = (\<lambda>org repo clo w. (lc (Page clo), Suc w)),
      PullRequestsGet = (\<lambda>org repo n w. (pg n, Suc w)),
      IssuesGet = (\<lambda>org repo n w. (ig n, Suc w))\<rparr>"

definition stubPrettify :: "string list \<Rightarrow> string" where
  "stubPrettify sigs = concat (map (\<lambda>s. ''sig/'' @ s @ '' '') sigs)"

text \<open>A change carrying two SIG labels and nothing else of note.\<close>

definition dupCommit :: RepositoryCommit where
  "dupCommit = \<lparr>SHA = ''c0ffee'', Message = ''Tune cache (#7)'', AuthorLogin = ''bob''\<rparr>"

definition dupPR :: PullRequest where
  "dupPR = \<lparr>pr_Number = 7, pr_Body = ''tuning'', pr_Labels = [''sig/a'', ''area/db'', ''sig/b''],
            pr_UserLogin = ''bob''\<rparr>"

definition dupClient :: "nat Client" where
  "dupClient = stubClient (\<lambda>sha. Inl ''404'') (\<lambda>page. Inl ''404'')
                 (\<lambda>n. if n = 7 then Inr dupPR else Inl ''404'') (\<lambda>n. Inl ''404'')"

definition dupNote :: ReleaseNote where
  "dupNote = noteOf stubPrettify dupCommit dupPR None"

text \<open>A change without a \<open>kind/feature\<close> label that closes an issue which is not a bug.\<close>

definition featCommit :: RepositoryCommit where
  "featCommit = \<lparr>SHA = ''f00d'', Message = ''Add dark mode (#41)'' @ [LF, LF] @ ''Fixes #9'',
                 AuthorLogin = ''alice''\<rparr>"

definition featPR :: PullRequest where
  "featPR = \<lparr>pr_Number = 41, pr_Body = ''dark mode'', pr_Labels = [''sig/ui''],
             pr_UserLogin = ''alice''\<rparr>"

definition featIssue :: Issue where
  "featIssue = \<lparr>issue_Labels = [''enhancement'', ''area/ui'']\<rparr>"

definition featClient :: "nat Client" where
  "featClient = stubClient (\<lambda>sha. Inl ''404'') (\<lambda>page. Inl ''404'')
                  (\<lambda>n. if n = 41 then Inr featPR else Inl ''404'')
                  (\<lambda>n. if n = 9 then Inr featIssue else Inl ''404'')"

definition featNote :: ReleaseNote where
  "featNote = noteOf stubPrettify featCommit featPR (Some featIssue)"

text \<open>
  A run over six commits on two pages: two changes with the same first line, one whose
  first line is \<open>NONE\<close>, one by the bot account, one whose pull request cannot be
  fetched, and one without a pull-request number.
\<close>

definition runCommits :: "RepositoryCommit list" where
  "runCommits =
     [\<lparr>SHA = ''a1'', Message = ''Fix typo (#1)'', AuthorLogin = ''ann''\<rparr>,
      \<lparr>SHA = ''b2'', Message = ''Fix typo (#2)'', AuthorLogin = ''ben''\<rparr>,
      \<lparr>SHA = ''c3'', Message = ''NONE (#3)'', AuthorLogin = ''cat''\<rparr>,
      \<lparr>SHA = ''d4'', Message = ''Nightly (#4)'', AuthorLogin = ''netdatabot''\<rparr>,
      \<lparr>SHA = ''e5'', Message = ''Add gauge (#5)'', AuthorLogin = ''eve''\<rparr>,
      \<lparr>SHA = ''f6'', Message = ''Merge branch'', AuthorLogin = ''fay''\<rparr>]"

definition runPR :: "int \<Rightarrow> string \<Rightarrow> PullRequest" where
  "runPR n login = \<lparr>pr_Number = n, pr_Body = ''text'', pr_Labels = [], pr_UserLogin = login\<rparr>"

definition runClient :: "nat Client" where
  "runClient =
     stubClient
       (\<lambda>sha. if sha = ''s'' then Inr \<lparr>CommitterDate = 0\<rparr>
              else if sha = ''t'' then Inr \<lparr>CommitterDate = 10\<rparr> else Inl ''404'')
       (\<lambda>page. if page = 1 then Inr (take 3 runCommits, \<lparr>LastPage = 2\<rparr>)
               else if page = 2 then Inr (drop 3 runCommits, \<lparr>LastPage = 2\<rparr>) else Inl ''404'')
       (\<lambda>n. if n = 1 then Inr (runPR 1 ''ann'') else if n = 2 then Inr (runPR 2 ''ben'')
            else if n = 3 then Inr (runPR 3 ''cat'') else if n = 4 then Inr (runPR 4 ''bot'')
            else Inl ''404'')
       (\<lambda>n. Inl ''404'')"

definition runNote :: ReleaseNote where
  "runNote = noteOf stubPrettify (runCommits ! 0) (runPR 1 ''ann'') None"

definition runAssembled :: "(RepositoryCommit \<times> (error + ReleaseNote)) list" where
  "runAssembled =
     [(runCommits ! 0, Inr runNote),
      (runCommits ! 1, Inr (noteOf stubPrettify (runCommits ! 1) (runPR 2 ''ben'') None)),
      (runCommits ! 2, Inr (noteOf stubPrettify (runCommits ! 2) (runPR 3 ''cat'') None)),
      (runCommits ! 4,
       Inl (Wrapf ''error parsing release note from commit e5'' (ApiError ''404'')))]"


text \<open>Commits for the extraction of the pull-request number: the marker at the end of the
  first line, the marker on a later line only, and a marker whose number does not fit
  a 64-bit integer.\<close>

definition widgetCommit :: RepositoryCommit where
  "widgetCommit = \<lparr>SHA = ''0a'', Message = ''Fix widget rendering (#1234)'', AuthorLogin = ''dev''\<rparr>"

definition laterLineCommit :: RepositoryCommit where
  "laterLineCommit = \<lparr>SHA = ''0b'', Message = ''Fix widget'' @ [LF, LF] @ ''see (#1234)'',
                      AuthorLogin = ''dev''\<rparr>"

definition hugeCommit :: RepositoryCommit where
  "hugeCommit = \<lparr>SHA = ''0c'', Message = ''Fix widget (#99999999999999999999)'',
                 AuthorLogin = ''dev''\<rparr>"

definition widgetPR :: PullRequest where
  "widgetPR = \<lparr>pr_Number = 1234,
               pr_Body = ''```release-note'' @ [CR, LF] @ ''NONE'' @ [CR, LF] @ ''```'',
               pr_Labels = [], pr_UserLogin = ''dev''\<rparr>"

definition widgetClient :: "nat Client" where
  "widgetClient = stubClient (\<lambda>sha. Inl ''404'') (\<lambda>page. Inl ''404'')
                    (\<lambda>n. if n = 1234 then Inr widgetPR else Inl ''404'') (\<lambda>n. Inl ''404'')"

text \<open>Commits for the extraction of issue numbers: two references, and a reference to a
  number that does not fit a 64-bit integer.\<close>

definition twoIssuesCommit :: RepositoryCommit where
  "twoIssuesCommit = \<lparr>SHA = ''1a'', Message = ''Fixes #12 and closes 34 (#56)'',
                      AuthorLogin = ''dev''\<rparr>"

definition hugeIssueCommit :: RepositoryCommit where
  "hugeIssueCommit = \<lparr>SHA = ''1b'', Message = ''Fix 99999999999999999999 alarms (#3)'',
                      AuthorLogin = ''dev''\<rparr>"

definition widgetNote :: ReleaseNote where
  "widgetNote = noteOf stubPrettify widgetCommit widgetPR None"

text \<open>A first line with two markers.\<close>

definition twoMarkersCommit :: RepositoryCommit where
  "twoMarkersCommit = \<lparr>SHA = ''2a'', Message = ''Fix (#1) foo (#2)'', AuthorLogin = ''dev''\<rparr>"

definition twoMarkersPR :: PullRequest where
  "twoMarkersPR = \<lparr>pr_Number = 1, pr_Body = ''foo'', pr_Labels = [], pr_UserLogin = ''dev''\<rparr>"

definition twoMarkersClient :: "nat Client" where
  "twoMarkersClient = stubClient (\<lambda>sha. Inl ''404'') (\<lambda>page. Inl ''404'')
                        (\<lambda>n. if n = 1 then Inr twoMarkersPR else Inl ''404'') (\<lambda>n. Inl ''404'')"

definition twoMarkersNote :: ReleaseNote where
  "twoMarkersNote = noteOf stubPrettify twoMarkersCommit twoMarkersPR None"

text \<open>Texts for the extraction of a note: a stanza with markers and carriage returns, a
  stanza with a bullet in the middle of its line, one ending in two carriage returns,
  and a text without a stanza.\<close>

definition stanzaBody :: string where
  "stanzaBody = ''What changed:'' @ [CR, LF] @ ''```release-note'' @ [CR, LF]
                @ ''[ACTION REQUIRED] * Use the new flag'' @ [CR, CR, LF] @ ''```''"

definition bulletBody :: string where
  "bulletBody = ''```release-note'' @ [CR, LF] @ ''use a * b here''"

definition twoCRBody :: string where
  "twoCRBody = ''```release-note'' @ [CR, LF] @ ''note'' @ [CR, CR, LF] @ ''```''"

text \<open>A run over one commit whose pull request carries a release-note stanza.\<close>

definition stanzaCommit :: RepositoryCommit where
  "stanzaCommit = \<lparr>SHA = ''3a'', Message = ''Add gauge (#8)'', AuthorLogin = ''eve''\<rparr>"

definition stanzaPR :: PullRequest where
  "stanzaPR = \<lparr>pr_Number = 8,
               pr_Body = ''```release-note'' @ [CR, LF] @ ''Add gauge'' @ [CR, LF] @ ''```'',
               pr_Labels = [], pr_UserLogin = ''eve''\<rparr>"

definition stanzaClient :: "nat Client" where
  "stanzaClient =
     stubClient
       (\<lambda>sha. if sha = ''s'' then Inr \<lparr>CommitterDate = 0\<rparr>
              else if sha = ''t'' then Inr \<lparr>CommitterDate = 10\<rparr> else Inl ''404'')
       (\<lambda>page. if page = 1 then Inr ([stanzaCommit], \<lparr>LastPage = 1\<rparr>) else Inl ''404'')
       (\<lambda>n. if n = 8 then Inr stanzaPR else Inl ''404'')
       (\<lambda>n. Inl ''404'')"





section \<open>Labels and classification\<close>

lemma foldl_snoc_id: "foldl (\<lambda>acc x. acc @ [x]) acc xs = acc @ xs"
  by (induction xs arbitrary: acc) simp_all

lemma GetPRLabels_eq: "GetPRLabels pr = pr_Labels pr"
  by (simp add: GetPRLabels_def foldl_snoc_id)

lemma GetIssueLabels_eq: "GetIssueLabels issue = issue_Labels issue"
  by (simp add: GetIssueLabels_def foldl_snoc_id)

lemma HasString_iff: "HasString a x = (x \<in> set a)"
  by (induction a) auto

lemma HasPrefix_iff: "HasPrefix s p = prefix p s"
  by (auto simp: HasPrefix_def prefix_def) (metis append_take_drop_id)

lemma StringsWithPrefix_eq:
  "StringsWithPrefix xs p = map (drop (length p)) (filter (prefix p) xs)"
  by (induction xs) (simp_all add: TrimPrefix_def HasPrefix_iff)

lemma StringsWithPrefix_mem: "(y \<in> set (StringsWithPrefix xs p)) = (p @ y \<in> set xs)"
proof -
  have "(\<exists>x \<in> set xs. prefix p x \<and> y = drop (length p) x) = (p @ y \<in> set xs)"
    by (auto simp: prefix_def)
  then show ?thesis by (auto simp: StringsWithPrefix_eq)
qed

lemma IsActionRequiredLabels_iff:
  "IsActionRequiredLabels labels = (''release-note-action-required'' \<in> set labels)"
  by (induction labels) auto

lemma IsActionRequired_iff:
  "IsActionRequired pr = (''release-note-action-required'' \<in> set (pr_Labels pr))"
  by (simp add: IsActionRequired_def IsActionRequiredLabels_iff)

text \<open>A note that was assembled is \<open>noteOf\<close> the pull request and the issue fetched.\<close>

lemma ReleaseNoteFromCommit_Inr:
  assumes "ReleaseNoteFromCommit p commit client opts w = (Inr note, w')"
    and "PRFromCommit client commit opts w = (Inr pr, w1)"
  shows "note = noteOf p commit pr (fetchedIssue client commit opts w1)"
  using assms
  by (auto simp: ReleaseNoteFromCommit_def fetchedIssue_def neq_Nil_conv
           split: sum.splits prod.splits if_splits list.splits)

lemma Feature_noteOf:
  "Feature (noteOf p commit pr issue) =
     (''kind/feature'' \<in> set (pr_Labels pr)
      \<or> (case issue of None \<Rightarrow> False | Some i \<Rightarrow> ''bug'' \<notin> set (issue_Labels i)))"
  by (cases issue)
     (simp_all add: noteOf_def Let_def GetPRLabels_eq GetIssueLabels_eq HasString_iff
                    StringsWithPrefix_mem)

lemma ActionRequired_noteOf:
  "ActionRequired (noteOf p commit pr issue) =
     (''release-note-action-required'' \<in> set (pr_Labels pr))"
  by (simp add: noteOf_def Let_def IsActionRequired_iff)

lemma Duplicate_noteOf:
  "Duplicate (noteOf p commit pr issue) =
     (\<not> (ActionRequired (noteOf p commit pr issue) \<or> Feature (noteOf p commit pr issue))
      \<and> 1 < length (filter (prefix ''sig/'') (pr_Labels pr)))"
  by (simp add: noteOf_def Let_def StringsWithPrefix_eq GetPRLabels_eq)

text \<open>
  C6. For every note assembled from a commit, \<open>duplicate\<close> holds exactly when neither
  \<open>action_required\<close> nor \<open>feature\<close> holds and more than one label of the pull request
  starts with \<open>sig/\<close>; with no or one such label it is false. \<open>action_required\<close> is the
  presence of the label \<open>release-note-action-required\<close>.
\<close>

theorem duplicate_iff:
  assumes "ReleaseNoteFromCommit p commit client opts w = (Inr note, w')"
    and "PRFromCommit client commit opts w = (Inr pr, w1)"
  shows "Duplicate note =
           (\<not> (ActionRequired note \<or> Feature note)
            \<and> 1 < length (filter (prefix ''sig/'') (pr_Labels pr)))
         \<and> (length (filter (prefix ''sig/'') (pr_Labels pr)) \<le> 1 \<longrightarrow> \<not> Duplicate note)
         \<and> ActionRequired note = (''release-note-action-required'' \<in> set (pr_Labels pr))"
proof -
  have "note = noteOf p commit pr (fetchedIssue client commit opts w1)"
    using assms by (rule ReleaseNoteFromCommit_Inr)
  then show ?thesis
    using Duplicate_noteOf[of p commit pr "fetchedIssue client commit opts w1"]
    by (simp add: ActionRequired_noteOf)
qed

theorem duplicate_iff_witness:
  "ReleaseNoteFromCommit stubPrettify dupCommit dupClient [] 0 = (Inr dupNote, 1)
   \<and> PRFromCommit dupClient dupCommit [] 0 = (Inr dupPR, 1)
   \<and> length (filter (prefix ''sig/'') (pr_Labels dupPR)) = 2
   \<and> \<not> ActionRequired dupNote \<and> \<not> Feature dupNote \<and> Duplicate dupNote"
proof -
  have h1: "ReleaseNoteFromCommit stubPrettify dupCommit dupClient [] 0 = (Inr dupNote, 1)"
    by code_simp
  have h2: "PRFromCommit dupClient dupCommit [] 0 = (Inr dupPR, 1)"
    by code_simp
  have h3: "length (filter (prefix ''sig/'') (pr_Labels dupPR)) = 2"
    by code_simp
  have h4: "\<not> ActionRequired dupNote" "\<not> Feature dupNote"
    by code_simp+
  from duplicate_iff[OF h1 h2] h3 h4 have "Duplicate dupNote" by simp
  with h1 h2 h3 h4 show ?thesis by simp
qed

text \<open>
  C7. For every note assembled from a commit, \<open>feature\<close> holds if the pull request
  carries the label \<open>kind/feature\<close>, whatever the labels of the issue; otherwise it holds
  exactly when an issue was fetched and that issue does not carry the label \<open>bug\<close>.
\<close>

theorem feature_classification:
  assumes "ReleaseNoteFromCommit p commit client opts w = (Inr note, w')"
    and "PRFromCommit client commit opts w = (Inr pr, w1)"
  shows "Feature note =
           (''kind/feature'' \<in> set (pr_Labels pr)
            \<or> (case fetchedIssue client commit opts w1 of
                  None \<Rightarrow> False
                | Some issue \<Rightarrow> ''bug'' \<notin> set (issue_Labels issue)))"
  using ReleaseNoteFromCommit_Inr[OF assms] by (simp only: Feature_noteOf)

theorem feature_classification_witness:
  "ReleaseNoteFromCommit stubPrettify featCommit featClient [] 0 = (Inr featNote, 2)
   \<and> PRFromCommit featClient featCommit [] 0 = (Inr featPR, 1)
   \<and> ''kind/feature'' \<notin> set (pr_Labels featPR)
   \<and> fetchedIssue featClient featCommit [] 1 = Some featIssue
   \<and> ''bug'' \<notin> set (issue_Labels featIssue)
   \<and> Feature featNote"
proof -
  have h1: "ReleaseNoteFromCommit stubPrettify featCommit featClient [] 0 = (Inr featNote, 2)"
    by code_simp
  have h2: "PRFromCommit featClient featCommit [] 0 = (Inr featPR, 1)"
    by code_simp
  have h3: "fetchedIssue featClient featCommit [] 1 = Some featIssue"
    by code_simp
  have h4: "''kind/feature'' \<notin> set (pr_Labels featPR)" "''bug'' \<notin> set (issue_Labels featIssue)"
    by code_simp+
  from feature_classification[OF h1 h2] h3 h4 have "Feature featNote" by simp
  with h1 h2 h3 h4 show ?thesis by simp
qed

section \<open>The loop over the commits with notes\<close>

text \<open>The loop of \<open>ListReleaseNotes\<close> in terms of the assembly of all notes: the notes
  kept are the first of each text among those not reading \<open>NONE\<close>, the log grows by
  the failures.\<close>

lemma notesLoop_assemble:
  "notesLoop p client opts commits cache acc lg w =
     (case assembleAll p client opts commits w of
        (rs, w') \<Rightarrow>
          (acc @ keepFirst cache (filter notNone (successes rs)), lg @ failures rs, w'))"
proof (induction commits arbitrary: cache acc lg w)
  case Nil
  then show ?case by simp
next
  case (Cons commit commits)
  show ?case
  proof (cases "AuthorLogin commit = ''netdatabot''")
    case True
    then show ?thesis using Cons.IH by simp
  next
    case False
    obtain r w1 where r: "ReleaseNoteFromCommit p commit client opts w = (r, w1)"
      by (cases "ReleaseNoteFromCommit p commit client opts w")
    obtain rs w2 where rs: "assembleAll p client opts commits w1 = (rs, w2)"
      by (cases "assembleAll p client opts commits w1")
    show ?thesis
    proof (cases r)
      case (Inl err)
      with False r rs show ?thesis by (simp add: Cons.IH)
    next
      case (Inr nt)
      with False r rs show ?thesis by (simp add: Cons.IH notNone_def)
    qed
  qed
qed

lemma keepFirst_subseq: "subseq (keepFirst seen ns) ns"
  by (induction ns arbitrary: seen) auto

lemma keepFirst_subset: "set (keepFirst seen ns) \<subseteq> set ns"
  by (induction ns arbitrary: seen) auto

lemma keepFirst_texts: "Text ` set (keepFirst seen ns) = Text ` set ns - seen"
  by (induction ns arbitrary: seen) auto

lemma keepFirst_distinct: "distinct (map Text (keepFirst seen ns))"
  by (induction ns arbitrary: seen) (auto simp: keepFirst_texts)

lemma keepFirst_first:
  "(n \<in> set (keepFirst seen ns)) =
     (\<exists>pre post. ns = pre @ n # post \<and> Text n \<notin> seen \<and> Text n \<notin> Text ` set pre)"
proof (induction ns arbitrary: seen)
  case Nil
  then show ?case by simp
next
  case (Cons a ns)
  show ?case
  proof (cases "Text a \<in> seen")
    case True
    have "(\<exists>pre post. a # ns = pre @ n # post \<and> Text n \<notin> seen \<and> Text n \<notin> Text ` set pre)
          = (\<exists>pre post. ns = pre @ n # post \<and> Text n \<notin> seen \<and> Text n \<notin> Text ` set pre)"
      (is "?L = ?R")
    proof
      assume ?L
      then obtain pre post where h: "a # ns = pre @ n # post" "Text n \<notin> seen" "Text n \<notin> Text ` set pre"
        by blast
      show ?R
      proof (cases pre)
        case Nil
        with h True show ?thesis by auto
      next
        case (Cons b pre')
        with h show ?thesis by auto
      qed
    next
      assume ?R
      then obtain pre post where h: "ns = pre @ n # post" "Text n \<notin> seen" "Text n \<notin> Text ` set pre"
        by blast
      with True have "a # ns = (a # pre) @ n # post \<and> Text n \<notin> seen \<and> Text n \<notin> Text ` set (a # pre)"
        by auto
      then show ?L by blast
    qed
    with True Cons.IH[of seen] show ?thesis by simp
  next
    case False
    have "(\<exists>pre post. a # ns = pre @ n # post \<and> Text n \<notin> seen \<and> Text n \<notin> Text ` set pre)
          = (n = a \<or> (\<exists>pre post. ns = pre @ n # post \<and> Text n \<notin> insert (Text a) seen
                         \<and> Text n \<notin> Text ` set pre))"
      (is "?L = ?R")
    proof
      assume ?L
      then obtain pre post where h: "a # ns = pre @ n # post" "Text n \<notin> seen" "Text n \<notin> Text ` set pre"
        by blast
      show ?R
      proof (cases pre)
        case Nil
        with h show ?thesis by auto
      next
        case (Cons b pre')
        with h have "ns = pre' @ n # post" "Text n \<notin> insert (Text a) seen" "Text n \<notin> Text ` set pre'"
          by auto
        then show ?thesis by blast
      qed
    next
      assume ?R
      then show ?L
      proof
        assume "n = a"
        with False have "a # ns = [] @ n # ns \<and> Text n \<notin> seen \<and> Text n \<notin> Text ` set []" by simp
        then show ?L by blast
      next
        assume "\<exists>pre post. ns = pre @ n # post \<and> Text n \<notin> insert (Text a) seen \<and> Text n \<notin> Text ` set pre"
        then obtain pre post where h: "ns = pre @ n # post" "Text n \<notin> insert (Text a) seen" "Text n \<notin> Text ` set pre"
          by blast
        then have "a # ns = (a # pre) @ n # post \<and> Text n \<notin> seen \<and> Text n \<notin> Text ` set (a # pre)"
          by auto
        then show ?L by blast
      qed
    qed
    with False Cons.IH[of "insert (Text a) seen"] show ?thesis by simp
  qed
qed

lemma assembleAll_filter:
  "assembleAll p client opts (filter (\<lambda>c. AuthorLogin c \<noteq> ''netdatabot'') commits) w =
   assembleAll p client opts commits w"
  by (induction commits arbitrary: w) (auto split: prod.splits)

lemma assembleAll_provenance:
  "assembleAll p client opts commits w = (rs, w') \<Longrightarrow> (c, r) \<in> set rs \<Longrightarrow>
     c \<in> set commits \<and> AuthorLogin c \<noteq> ''netdatabot''
     \<and> (\<exists>w0 w0'. ReleaseNoteFromCommit p c client opts w0 = (r, w0'))"
proof (induction commits arbitrary: w rs)
  case Nil
  then show ?case by simp
next
  case (Cons commit commits)
  show ?case
  proof (cases "AuthorLogin commit = ''netdatabot''")
    case True
    with Cons.prems Cons.IH[of w rs] show ?thesis by auto
  next
    case False
    obtain r1 w1 where r1: "ReleaseNoteFromCommit p commit client opts w = (r1, w1)"
      by (cases "ReleaseNoteFromCommit p commit client opts w")
    obtain rs1 w2 where rs1: "assembleAll p client opts commits w1 = (rs1, w2)"
      by (cases "assembleAll p client opts commits w1")
    from Cons.prems(1) False r1 rs1 have rs: "rs = (commit, r1) # rs1" and w2: "w2 = w'" by simp_all
    show ?thesis
    proof (cases "(c, r) = (commit, r1)")
      case True
      with False r1 show ?thesis by auto
    next
      case False
      with rs Cons.prems(2) have "(c, r) \<in> set rs1" by auto
      from Cons.IH[OF rs1[unfolded w2] this] show ?thesis by auto
    qed
  qed
qed

lemma successes_mem: "(n \<in> set (successes rs)) = (\<exists>c. (c, Inr n) \<in> set rs)"
  by (induction rs rule: successes.induct) auto

lemma Commit_of_note:
  "ReleaseNoteFromCommit p c client opts w = (Inr n, w') \<Longrightarrow> Commit n = SHA c"
  by (auto simp: ReleaseNoteFromCommit_def noteOf_def Let_def
           split: sum.splits prod.splits if_splits)

lemma ListReleaseNotes_assemble:
  assumes "ListCommitsWithNotes client start end opts w = (Inr commits, w1)"
    and "assembleAll p client opts commits w1 = (rs, w2)"
  shows "ListReleaseNotes p client lg start end opts w =
           (Inr (keepFirst {} (filter notNone (successes rs))), lg @ failures rs, w2)"
  using assms by (simp add: ListReleaseNotes_def notesLoop_assemble)

text \<open>
  C8. \<open>ListReleaseNotes\<close> returns, of the notes assembled from the commits in order,
  those whose trimmed text is not \<open>NONE\<close>, each text once: the result is a subsequence
  of these notes, no two of its notes have the same text, and a note is in it exactly
  when it occurs with no note of the same text before it.
\<close>

theorem dedup_by_text:
  assumes "ListCommitsWithNotes client start end opts w = (Inr commits, w1)"
    and "assembleAll p client opts commits w1 = (rs, w2)"
  shows "\<exists>out. fst (ListReleaseNotes p client lg start end opts w) = Inr out
           \<and> subseq out (filter (\<lambda>n. TrimSpace (Text n) \<noteq> ''NONE'') (successes rs))
           \<and> distinct (map Text out)
           \<and> (\<forall>n. (n \<in> set out) =
                    (\<exists>pre post. filter (\<lambda>n. TrimSpace (Text n) \<noteq> ''NONE'') (successes rs)
                                   = pre @ n # post
                                 \<and> Text n \<notin> Text ` set pre))"
proof -
  let ?cands = "filter notNone (successes rs)"
  have eq: "filter (\<lambda>n. TrimSpace (Text n) \<noteq> ''NONE'') (successes rs) = ?cands"
    by (simp add: notNone_def[abs_def])
  have "fst (ListReleaseNotes p client lg start end opts w) = Inr (keepFirst {} ?cands)"
    using ListReleaseNotes_assemble[OF assms] by simp
  moreover have "subseq (keepFirst {} ?cands) ?cands"
    by (rule keepFirst_subseq)
  moreover have "distinct (map Text (keepFirst {} ?cands))"
    by (rule keepFirst_distinct)
  moreover have "\<forall>n. (n \<in> set (keepFirst {} ?cands)) =
                      (\<exists>pre post. ?cands = pre @ n # post \<and> Text n \<notin> Text ` set pre)"
    by (simp add: keepFirst_first)
  ultimately show ?thesis unfolding eq by blast
qed

theorem dedup_by_text_witness:
  "ListCommitsWithNotes runClient ''s'' ''t'' [] 0 = (Inr (take 5 runCommits), 9)
   \<and> assembleAll stubPrettify runClient [] (take 5 runCommits) 9 = (runAssembled, 13)
   \<and> map Text (successes runAssembled) = [''Fix typo'', ''Fix typo'', ''NONE'']
   \<and> fst (ListReleaseNotes stubPrettify runClient [] ''s'' ''t'' [] 0) = Inr [runNote]
   \<and> Commit runNote = ''a1''"
proof -
  have h1: "ListCommitsWithNotes runClient ''s'' ''t'' [] 0 = (Inr (take 5 runCommits), 9)"
    by code_simp
  have h2: "assembleAll stubPrettify runClient [] (take 5 runCommits) 9 = (runAssembled, 13)"
    by code_simp
  have h3: "map Text (successes runAssembled) = [''Fix typo'', ''Fix typo'', ''NONE'']"
    by code_simp
  have h4: "filter (\<lambda>n. TrimSpace (Text n) \<noteq> ''NONE'') (successes runAssembled)
              = [] @ runNote # [noteOf stubPrettify (runCommits ! 1) (runPR 2 ''ben'') None]"
    by code_simp
  have h5: "Commit runNote = ''a1''"
    by code_simp
  from dedup_by_text[OF h1 h2, of "[]"] obtain out where
    out: "fst (ListReleaseNotes stubPrettify runClient [] ''s'' ''t'' [] 0) = Inr out"
      "subseq out (filter (\<lambda>n. TrimSpace (Text n) \<noteq> ''NONE'') (successes runAssembled))"
      "distinct (map Text out)"
      "\<forall>n. (n \<in> set out) =
            (\<exists>pre post. filter (\<lambda>n. TrimSpace (Text n) \<noteq> ''NONE'') (successes runAssembled)
                           = pre @ n # post
                         \<and> Text n \<notin> Text ` set pre)"
    by blast
  have "fst (ListReleaseNotes stubPrettify runClient [] ''s'' ''t'' [] 0) = Inr [runNote]"
    by code_simp
  with h1 h2 h3 h5 show ?thesis by simp
qed

text \<open>
  C9. The commits authored by the bot account have no part in the result of
  \<open>ListReleaseNotes\<close>: the result is what the loop gives on the list without them, and
  every note returned was assembled from a commit of the list that the bot account did
  not author, whose SHA it carries.
\<close>

theorem bot_commits_never_appear:
  assumes "ListCommitsWithNotes client start end opts w = (Inr commits, w1)"
  shows "ListReleaseNotes p client lg start end opts w =
           (case notesLoop p client opts
                   (filter (\<lambda>c. AuthorLogin c \<noteq> ''netdatabot'') commits) {} [] lg w1 of
              (ns, lg', w2) \<Rightarrow> (Inr ns, lg', w2))
         \<and> (\<forall>out. fst (ListReleaseNotes p client lg start end opts w) = Inr out \<longrightarrow>
               (\<forall>n \<in> set out. \<exists>c \<in> set commits.
                   AuthorLogin c \<noteq> ''netdatabot'' \<and> Commit n = SHA c
                   \<and> (\<exists>w0 w0'. ReleaseNoteFromCommit p c client opts w0 = (Inr n, w0'))))"
proof -
  obtain rs w2 where rs: "assembleAll p client opts commits w1 = (rs, w2)"
    by (cases "assembleAll p client opts commits w1")
  have run: "ListReleaseNotes p client lg start end opts w =
               (Inr (keepFirst {} (filter notNone (successes rs))), lg @ failures rs, w2)"
    by (rule ListReleaseNotes_assemble[OF assms rs])
  have "notesLoop p client opts (filter (\<lambda>c. AuthorLogin c \<noteq> ''netdatabot'') commits) {} [] lg w1
          = (keepFirst {} (filter notNone (successes rs)), lg @ failures rs, w2)"
    by (simp add: notesLoop_assemble assembleAll_filter rs)
  with run have first: "ListReleaseNotes p client lg start end opts w =
           (case notesLoop p client opts
                   (filter (\<lambda>c. AuthorLogin c \<noteq> ''netdatabot'') commits) {} [] lg w1 of
              (ns, lg', w2) \<Rightarrow> (Inr ns, lg', w2))"
    by simp
  have second: "\<exists>c \<in> set commits. AuthorLogin c \<noteq> ''netdatabot'' \<and> Commit n = SHA c
                   \<and> (\<exists>w0 w0'. ReleaseNoteFromCommit p c client opts w0 = (Inr n, w0'))"
    if "n \<in> set (keepFirst {} (filter notNone (successes rs)))" for n
  proof -
    from that have "n \<in> set (successes rs)"
      using keepFirst_subset[of "{}" "filter notNone (successes rs)"] by auto
    then obtain c where c: "(c, Inr n) \<in> set rs" by (auto simp: successes_mem)
    from assembleAll_provenance[OF rs c] obtain w0 w0' where
      h: "c \<in> set commits" "AuthorLogin c \<noteq> ''netdatabot''"
         "ReleaseNoteFromCommit p c client opts w0 = (Inr n, w0')" by blast
    from h(3) have "Commit n = SHA c" by (rule Commit_of_note)
    with h show ?thesis by (intro bexI[of _ c]) auto
  qed
  have third: "\<forall>out. fst (ListReleaseNotes p client lg start end opts w) = Inr out \<longrightarrow>
               (\<forall>n \<in> set out. \<exists>c \<in> set commits.
                   AuthorLogin c \<noteq> ''netdatabot'' \<and> Commit n = SHA c
                   \<and> (\<exists>w0 w0'. ReleaseNoteFromCommit p c client opts w0 = (Inr n, w0')))"
    using second by (simp add: run)
  from first third show ?thesis by (rule conjI)
qed

theorem bot_commits_never_appear_witness:
  "ListCommitsWithNotes runClient ''s'' ''t'' [] 0 = (Inr (take 5 runCommits), 9)
   \<and> AuthorLogin (runCommits ! 3) = ''netdatabot''
   \<and> ListReleaseNotes stubPrettify runClient [] ''s'' ''t'' [] 0 =
       (Inr [runNote], [(Wrapf ''error parsing release note from commit e5'' (ApiError ''404''), ''e5'')], 13)
   \<and> ''d4'' \<notin> Commit ` set [runNote]"
proof -
  have h1: "ListCommitsWithNotes runClient ''s'' ''t'' [] 0 = (Inr (take 5 runCommits), 9)"
    by code_simp
  have h2: "notesLoop stubPrettify runClient []
              (filter (\<lambda>c. AuthorLogin c \<noteq> ''netdatabot'') (take 5 runCommits)) {} [] [] 9
            = ([runNote],
               [(Wrapf ''error parsing release note from commit e5'' (ApiError ''404''), ''e5'')], 13)"
    by code_simp
  have h3: "AuthorLogin (runCommits ! 3) = ''netdatabot''" "''d4'' \<notin> Commit ` set [runNote]"
    by code_simp+
  from bot_commits_never_appear[OF h1, of stubPrettify "[]"] h2
  have "ListReleaseNotes stubPrettify runClient [] ''s'' ''t'' [] 0 =
       (Inr [runNote], [(Wrapf ''error parsing release note from commit e5'' (ApiError ''404''), ''e5'')], 13)"
    by simp
  with h1 h3 show ?thesis by simp
qed

section \<open>Failures of the remote calls\<close>






lemma ReleaseNoteFromCommit_PR_fails:
  "PRFromCommit client commit opts w = (Inl e, w1) \<Longrightarrow>
     ReleaseNoteFromCommit p commit client opts w
       = (Inl (Wrapf (''error parsing release note from commit '' @ SHA commit) e), w1)"
  by (simp add: ReleaseNoteFromCommit_def)








section \<open>Matching\<close>

lemma search_scan:
  "search r s = (case scan (firstMatch r) s of None \<Rightarrow> None
                 | Some (pre, rest, cp) \<Rightarrow> Some (pre, rest, cp))"
  by (induction s) (auto simp: firstMatch_def split: list.splits option.splits)

lemma scan_Some_iff:
  "(scan m s = Some (pre, a)) =
     (\<exists>s'. s = pre @ s' \<and> m s' = Some a \<and> (\<forall>k < length pre. m (drop k s) = None))"
proof (induction s arbitrary: pre)
  case Nil
  then show ?case by (auto split: option.splits)
next
  case (Cons c cs)
  show ?case
  proof (cases "m (c # cs)")
    case (Some b)
    have "(\<exists>s'. c # cs = pre @ s' \<and> m s' = Some a \<and> (\<forall>k<length pre. m (drop k (c # cs)) = None))
          = (pre = [] \<and> b = a)"
    proof
      assume "\<exists>s'. c # cs = pre @ s' \<and> m s' = Some a \<and> (\<forall>k<length pre. m (drop k (c # cs)) = None)"
      then obtain s' where h: "c # cs = pre @ s'" "m s' = Some a"
        "\<forall>k<length pre. m (drop k (c # cs)) = None" by blast
      have "pre = []"
      proof (rule ccontr)
        assume "pre \<noteq> []"
        then have "0 < length pre" by simp
        with h(3) have "m (drop 0 (c # cs)) = None" by blast
        with Some show False by simp
      qed
      with h Some show "pre = [] \<and> b = a" by simp
    next
      assume "pre = [] \<and> b = a"
      with Some show "\<exists>s'. c # cs = pre @ s' \<and> m s' = Some a \<and> (\<forall>k<length pre. m (drop k (c # cs)) = None)"
        by simp
    qed
    with Some show ?thesis by auto
  next
    case None
    have "(\<exists>s'. c # cs = pre @ s' \<and> m s' = Some a \<and> (\<forall>k<length pre. m (drop k (c # cs)) = None))
          = (\<exists>pre'. pre = c # pre' \<and> (\<exists>s'. cs = pre' @ s' \<and> m s' = Some a \<and> (\<forall>k<length pre'. m (drop k cs) = None)))"
      (is "?L = ?R")
    proof
      assume ?L
      then obtain s' where h: "c # cs = pre @ s'" "m s' = Some a"
        "\<forall>k<length pre. m (drop k (c # cs)) = None" by blast
      from h(1,2) None obtain pre' where pre: "pre = c # pre'" "cs = pre' @ s'"
        by (cases pre) auto
      have "\<forall>k<length pre'. m (drop k cs) = None"
      proof (intro allI impI)
        fix k assume "k < length pre'"
        with pre have "Suc k < length pre" by simp
        with h(3) have "m (drop (Suc k) (c # cs)) = None" by blast
        then show "m (drop k cs) = None" by simp
      qed
      with pre h(2) show ?R by blast
    next
      assume ?R
      then obtain pre' s' where h: "pre = c # pre'" "cs = pre' @ s'" "m s' = Some a"
        "\<forall>k<length pre'. m (drop k cs) = None" by blast
      have "\<forall>k<length pre. m (drop k (c # cs)) = None"
      proof (intro allI impI)
        fix k assume k: "k < length pre"
        show "m (drop k (c # cs)) = None"
        proof (cases k)
          case 0
          with None show ?thesis by simp
        next
          case (Suc j)
          with k h(1) have "j < length pre'" by simp
          with h(4) Suc show ?thesis by simp
        qed
      qed
      with h show ?L by auto
    qed
    moreover from None have "(scan m (c # cs) = Some (pre, a))
                    = (\<exists>pre'. pre = c # pre' \<and> scan m cs = Some (pre', a))"
      by (auto split: option.splits)
    ultimately show ?thesis by (simp only: Cons.IH)
  qed
qed

lemma scan_None_iff: "(scan m s = None) = (\<forall>k \<le> length s. m (drop k s) = None)"
proof (induction s)
  case Nil
  then show ?case by (auto split: option.splits)
next
  case (Cons c cs)
  have "(\<forall>k \<le> length (c # cs). m (drop k (c # cs)) = None)
        = (m (c # cs) = None \<and> (\<forall>k \<le> length cs. m (drop k cs) = None))"
  proof
    assume a: "\<forall>k \<le> length (c # cs). m (drop k (c # cs)) = None"
    then have "m (drop 0 (c # cs)) = None" by blast
    moreover have "\<forall>k \<le> length cs. m (drop k cs) = None"
    proof (intro allI impI)
      fix k assume "k \<le> length cs"
      then have "Suc k \<le> length (c # cs)" by simp
      with a have "m (drop (Suc k) (c # cs)) = None" by blast
      then show "m (drop k cs) = None" by simp
    qed
    ultimately show "m (c # cs) = None \<and> (\<forall>k \<le> length cs. m (drop k cs) = None)" by simp
  next
    assume a: "m (c # cs) = None \<and> (\<forall>k \<le> length cs. m (drop k cs) = None)"
    show "\<forall>k \<le> length (c # cs). m (drop k (c # cs)) = None"
    proof (intro allI impI)
      fix k assume "k \<le> length (c # cs)"
      then show "m (drop k (c # cs)) = None" using a by (cases k) auto
    qed
  qed
  with Cons.IH show ?case by (auto split: option.splits)
qed

lemma ms_Lit: "ms (Lit l) s cp = (if prefix l s then [(drop (length l) s, cp)] else [])"
proof (induction l arbitrary: s)
  case Nil
  then show ?case by simp
next
  case (Cons c l)
  then show ?case by (cases s) auto
qed

lemma ms_Seq_Lit:
  "ms (Seq (Lit l) r) s cp = (if prefix l s then ms r (drop (length l) s) cp else [])"
  by (simp add: ms_Lit)

lemma ms_Star:
  "ms (Star a) s cp =
     concat (map (\<lambda>(s', cp'). if length s' < length s then ms (Star a) s' cp' else []) (ms a s cp))
     @ [(s, cp)]"
proof (cases s)
  case Nil
  then show ?thesis by (auto simp: concat_eq_Nil_conv)
next
  case (Cons x xs)
  then show ?thesis by simp
qed

lemma star_then:
  assumes "\<And>x xs cp'. x \<in> set cs \<Longrightarrow> f (x # xs, cp') = []"
  shows "concat (map f (ms (Star (Cls cs)) s cp)) = f (dropWhile (\<lambda>c. c \<in> set cs) s, cp)"
proof (induction s)
  case Nil
  then show ?case by simp
next
  case (Cons x xs)
  then show ?case using assms by simp
qed

text \<open>The pattern of the pull-request number matches in one way at most: a marker,
  its digits in group 1.\<close>

lemma ms_Plus_digits_then:
  assumes "\<And>x xs cp'. x \<in> set cs \<Longrightarrow> f (x # xs, cp') = []"
  shows "concat (map f (ms (Plus (Cls cs)) s cp)) =
           (case s of [] \<Rightarrow> []
            | x # xs \<Rightarrow> if x \<in> set cs then f (dropWhile (\<lambda>c. c \<in> set cs) xs, cp) else [])"
  using star_then[of cs f, OF assms] by (cases s) (auto simp: Plus_def)

lemma take_diff_dropWhile:
  "take (length r - length (dropWhile P r)) r = takeWhile P r"
proof -
  have "length r - length (dropWhile P r) = length (takeWhile P r)"
    by (metis length_append takeWhile_dropWhile_id add_diff_cancel_right')
  moreover have "take (length (takeWhile P r)) r = takeWhile P r"
    by (metis append_eq_conv_conj takeWhile_dropWhile_id)
  ultimately show ?thesis by simp
qed

lemma ms_prExp_tail:
  "concat (map (\<lambda>(s', cp'). ms (Lit '')'') s' (cp'(1 \<mapsto> take (length r - length s') r)))
               (ms (Plus reDigit) r cp)) =
     (if takeWhile isDigit r \<noteq> [] \<and> prefix '')'' (dropWhile isDigit r)
      then [(tl (dropWhile isDigit r), cp(1 \<mapsto> takeWhile isDigit r))] else [])"
proof -
  define f where "f = (\<lambda>(s', cp'). ms (Lit '')'') s' (cp'(1 \<mapsto> take (length r - length s') r)))"
  have rej: "\<And>x xs cp'. x \<in> set digitChars \<Longrightarrow> f (x # xs, cp') = []"
    by (auto simp: f_def digitChars_def)
  have isD: "(\<lambda>c. c \<in> set digitChars) = isDigit" by (simp add: isDigit_def[abs_def])
  have "concat (map f (ms (Plus (Cls digitChars)) r cp)) =
          (case r of [] \<Rightarrow> []
           | x # xs \<Rightarrow> if isDigit x then f (dropWhile isDigit xs, cp) else [])"
    using ms_Plus_digits_then[of digitChars f r cp, OF rej]
    by (simp add: isD isDigit_def split: list.splits)
  also have "\<dots> = (if takeWhile isDigit r \<noteq> [] \<and> prefix '')'' (dropWhile isDigit r)
      then [(tl (dropWhile isDigit r), cp(1 \<mapsto> takeWhile isDigit r))] else [])"
  proof (cases r)
    case Nil
    then show ?thesis by simp
  next
    case (Cons x xs)
    show ?thesis
    proof (cases "isDigit x")
      case False
      with Cons show ?thesis by simp
    next
      case True
      with Cons have dw: "dropWhile isDigit xs = dropWhile isDigit r"
        and tw: "takeWhile isDigit r \<noteq> []" by simp_all
      have "f (dropWhile isDigit r, cp) =
              (if prefix '')'' (dropWhile isDigit r)
               then [(tl (dropWhile isDigit r), cp(1 \<mapsto> takeWhile isDigit r))] else [])"
        by (simp add: f_def ms_Lit take_diff_dropWhile drop_Suc del: Lit.simps)
      with True Cons tw show ?thesis by (simp add: dw[symmetric])
    qed
  qed
  finally show ?thesis by (simp add: f_def reDigit_def)
qed

lemma ms_prExp:
  "ms prExp s cp =
     (case markerStrip s of None \<Rightarrow> [] | Some (ds, rest) \<Rightarrow> [(rest, cp(1 \<mapsto> ds))])"
proof (cases s rule: markerStrip.cases)
  case (1 a b r)
  have "ms prExp s cp =
          (if a = CHR ''('' \<and> b = CHR ''#''
           then concat (map (\<lambda>(s', cp'). ms (Lit '')'') s' (cp'(1 \<mapsto> take (length r - length s') r)))
               (ms (Plus reDigit) r cp)) else [])"
    using 1 by (simp add: prExp_def map_concat comp_def case_prod_unfold cong: list.case_cong if_cong)
  then have "ms prExp s cp =
          (if a = CHR ''('' \<and> b = CHR ''#''
           then (if takeWhile isDigit r \<noteq> [] \<and> prefix '')'' (dropWhile isDigit r)
                 then [(tl (dropWhile isDigit r), cp(1 \<mapsto> takeWhile isDigit r))] else [])
           else [])"
    by (simp only: ms_prExp_tail)
  then show ?thesis using 1 by simp
qed (simp_all add: prExp_def)

lemma markerStrip_Some_iff:
  "(markerStrip s = Some (ds, rest)) =
     (s = ''(#'' @ ds @ '')'' @ rest \<and> ds \<noteq> [] \<and> list_all isDigit ds)"
proof
  assume a: "markerStrip s = Some (ds, rest)"
  then obtain a' b r where s: "s = a' # b # r"
    by (cases s rule: markerStrip.cases) auto
  from a s have h: "a' = CHR ''(''" "b = CHR ''#''" "ds = takeWhile isDigit r" "ds \<noteq> []"
    "prefix '')'' (dropWhile isDigit r)" "rest = tl (dropWhile isDigit r)"
    by (auto split: if_splits)
  from h(5,6) have "dropWhile isDigit r = '')'' @ rest"
    by (cases "dropWhile isDigit r") auto
  with h(3) have "r = ds @ '')'' @ rest"
    by (metis takeWhile_dropWhile_id)
  moreover from h(3) have "list_all isDigit ds"
    by (simp add: list_all_iff) (meson set_takeWhileD)
  ultimately show "s = ''(#'' @ ds @ '')'' @ rest \<and> ds \<noteq> [] \<and> list_all isDigit ds"
    using s h by simp
next
  assume a: "s = ''(#'' @ ds @ '')'' @ rest \<and> ds \<noteq> [] \<and> list_all isDigit ds"
  have nd: "\<not> isDigit (CHR '')'')" by (simp add: isDigit_def digitChars_def)
  from a have all: "\<forall>x \<in> set ds. isDigit x" by (simp add: list_all_iff)
  have tw: "takeWhile isDigit (ds @ CHR '')'' # rest) = ds"
    using all nd by (simp add: takeWhile_append2)
  have dw: "dropWhile isDigit (ds @ CHR '')'' # rest) = CHR '')'' # rest"
    using all nd by simp
  from a tw dw show "markerStrip s = Some (ds, rest)" by simp
qed

lemma firstMatch_prExp:
  "firstMatch prExp s =
     (case markerStrip s of None \<Rightarrow> None | Some (ds, rest) \<Rightarrow> Some (rest, [1 \<mapsto> ds]))"
  by (simp add: firstMatch_def ms_prExp split: option.splits)

lemma hasMarker_iff: "hasMarker s = (\<exists>k \<le> length s. markerStrip (drop k s) \<noteq> None)"
proof
  assume "hasMarker s"
  then obtain pre ds post where
    h: "s = pre @ ''(#'' @ ds @ '')'' @ post" "ds \<noteq> []" "list_all isDigit ds"
    by (auto simp: hasMarker_def)
  have "markerStrip (''(#'' @ ds @ '')'' @ post) = Some (ds, post)"
    using h(2,3) by (intro markerStrip_Some_iff[THEN iffD2]) simp
  with h(1) have "markerStrip (drop (length pre) s) = Some (ds, post)"
    by simp
  moreover from h(1) have "length pre \<le> length s" by simp
  ultimately show "\<exists>k \<le> length s. markerStrip (drop k s) \<noteq> None" by (metis option.distinct(1))
next
  assume "\<exists>k \<le> length s. markerStrip (drop k s) \<noteq> None"
  then obtain k ds rest where "markerStrip (drop k s) = Some (ds, rest)" by auto
  then have "drop k s = ''(#'' @ ds @ '')'' @ rest" "ds \<noteq> []" "list_all isDigit ds"
    by (simp_all add: markerStrip_Some_iff)
  then have "s = take k s @ ''(#'' @ ds @ '')'' @ rest \<and> ds \<noteq> [] \<and> list_all isDigit ds"
    by (metis append_take_drop_id)
  then show "hasMarker s" unfolding hasMarker_def by blast
qed

lemma search_prExp_None: "(search prExp s = None) = (\<not> hasMarker s)"
proof -
  have "(search prExp s = None) = (scan (firstMatch prExp) s = None)"
    by (simp add: search_scan split: option.splits)
  also have "\<dots> = (\<forall>k \<le> length s. firstMatch prExp (drop k s) = None)"
    by (rule scan_None_iff)
  also have "\<dots> = (\<forall>k \<le> length s. markerStrip (drop k s) = None)"
  proof -
    have "\<And>t. (firstMatch prExp t = None) = (markerStrip t = None)"
      by (simp add: firstMatch_prExp split: option.splits)
    then show ?thesis by simp
  qed
  finally show ?thesis unfolding hasMarker_iff by auto
qed

lemma search_prExp_leftmost:
  assumes "s = pre @ ''(#'' @ ds @ '')'' @ post" "ds \<noteq> []" "list_all isDigit ds"
    and "\<And>pre' ds' post'. s = pre' @ ''(#'' @ ds' @ '')'' @ post' \<Longrightarrow> ds' \<noteq> [] \<Longrightarrow>
           list_all isDigit ds' \<Longrightarrow> length pre \<le> length pre'"
  shows "search prExp s = Some (pre, post, [1 \<mapsto> ds])"
proof -
  have "markerStrip (''(#'' @ ds @ '')'' @ post) = Some (ds, post)"
    using assms(2,3) by (intro markerStrip_Some_iff[THEN iffD2]) simp
  then have here: "firstMatch prExp (''(#'' @ ds @ '')'' @ post) = Some (post, [1 \<mapsto> ds])"
    by (simp only: firstMatch_prExp) simp
  have before: "\<forall>k < length pre. firstMatch prExp (drop k s) = None"
  proof (intro allI impI)
    fix k assume k: "k < length pre"
    show "firstMatch prExp (drop k s) = None"
    proof (rule ccontr)
      assume "firstMatch prExp (drop k s) \<noteq> None"
      then obtain ds' rest' where "markerStrip (drop k s) = Some (ds', rest')"
        by (auto simp: firstMatch_prExp split: option.splits)
      then have d: "drop k s = ''(#'' @ ds' @ '')'' @ rest'" "ds' \<noteq> []" "list_all isDigit ds'"
        by (simp_all add: markerStrip_Some_iff)
      then have "s = take k s @ ''(#'' @ ds' @ '')'' @ rest'"
        by (metis append_take_drop_id)
      from assms(4)[OF this d(2,3)] have "length pre \<le> length (take k s)" .
      with k show False by simp
    qed
  qed
  have "scan (firstMatch prExp) s = Some (pre, post, [1 \<mapsto> ds])"
    unfolding scan_Some_iff using assms(1) here before by blast
  then show ?thesis by (simp add: search_scan)
qed

lemma SubexpNames_prExp: "SubexpNames prExp = [[], ''number'']"
  by code_simp

lemma NumSubexp_prExp: "NumSubexp prExp = 1"
  by code_simp

lemma number_of_match:
  "lookupStr (namedGroups prExp [whole, ds]) ''number'' = ds"
  by (simp add: namedGroups_def SubexpNames_prExp lookupStr_def enumerate_eq_zip upt_rec)

lemma FindStringSubmatch_prExp:
  "search prExp s = Some (pre, post, [1 \<mapsto> ds]) \<Longrightarrow>
     \<exists>whole. FindStringSubmatch prExp s = [whole, ds]"
  by (simp add: FindStringSubmatch_def submatches_def NumSubexp_prExp)

lemma digit_not_sign: "isDigit c \<Longrightarrow> c \<noteq> CHR ''-'' \<and> c \<noteq> CHR ''+''"
  by (auto simp: isDigit_def digitChars_def)

lemma Atoi_digits:
  assumes "ds \<noteq> []" "list_all isDigit ds"
  shows "Atoi ds = (if 2 ^ 63 - 1 < decimal ds then Inl (NumError ''Atoi'' ds ErrRange)
                    else Inr (decimal ds))"
proof -
  from assms obtain c r where ds: "ds = c # r" "isDigit c" by (cases ds) auto
  with digit_not_sign[of c] assms show ?thesis by (simp add: Atoi_def Let_def)
qed

lemma takeWhile_append_stop: "\<not> P y \<Longrightarrow> takeWhile P (xs @ y # ys) = takeWhile P xs"
  by (induction xs) auto

lemma dropWhile_append_stop: "\<not> P y \<Longrightarrow> dropWhile P (xs @ y # ys) = dropWhile P xs @ y # ys"
  by (induction xs) auto

lemma markerStrip_append:
  assumes "markerStrip (q @ CHR ''('' # t) = Some (ds, rest)" "q \<noteq> []"
  shows "\<exists>q'. markerStrip q = Some (ds, q')"
proof -
  have nd: "\<not> isDigit (CHR ''('')" by (simp add: isDigit_def digitChars_def)
  show ?thesis
  proof (cases q rule: markerStrip.cases)
    case (1 a b r)
    have tw: "takeWhile isDigit (r @ CHR ''('' # t) = takeWhile isDigit r"
      by (rule takeWhile_append_stop[of isDigit "CHR ''(''" r t, OF nd])
    have dw: "dropWhile isDigit (r @ CHR ''('' # t) = dropWhile isDigit r @ CHR ''('' # t"
      by (rule dropWhile_append_stop[of isDigit "CHR ''(''" r t, OF nd])
    from assms(1) 1 have h: "a = CHR ''(''" "b = CHR ''#''" "takeWhile isDigit r \<noteq> []"
      "prefix '')'' (dropWhile isDigit r @ CHR ''('' # t)" "ds = takeWhile isDigit r"
      by (auto simp: tw dw split: if_splits)
    from h(4) have "prefix '')'' (dropWhile isDigit r)"
      by (cases "dropWhile isDigit r") auto
    with h 1 show ?thesis by simp
  qed (insert assms, simp_all)
qed

lemma no_marker_before:
  assumes "\<not> hasMarker pre" "k < length pre"
  shows "markerStrip (drop k (pre @ CHR ''('' # t)) = None"
proof (rule ccontr)
  assume "markerStrip (drop k (pre @ CHR ''('' # t)) \<noteq> None"
  then obtain ds rest where "markerStrip (drop k pre @ CHR ''('' # t) = Some (ds, rest)"
    using assms(2) by auto
  moreover from assms(2) have "drop k pre \<noteq> []" by simp
  ultimately obtain q' where "markerStrip (drop k pre) = Some (ds, q')"
    using markerStrip_append by blast
  moreover from assms(2) have "k \<le> length pre" by simp
  ultimately have "hasMarker pre" unfolding hasMarker_iff by (metis option.distinct(1))
  with assms(1) show False by simp
qed

lemma search_prExp_first:
  assumes "s = pre @ ''(#'' @ ds @ '')'' @ post" "ds \<noteq> []" "list_all isDigit ds"
    and "\<not> hasMarker pre"
  shows "search prExp s = Some (pre, post, [1 \<mapsto> ds])"
proof (rule search_prExp_leftmost[OF assms(1,2,3)])
  fix pre' ds' post'
  assume a: "s = pre' @ ''(#'' @ ds' @ '')'' @ post'" "ds' \<noteq> []" "list_all isDigit ds'"
  show "length pre \<le> length pre'"
  proof (rule ccontr)
    assume "\<not> length pre \<le> length pre'"
    then have k: "length pre' < length pre" by simp
    from assms(1) have "s = pre @ CHR ''('' # (''#'' @ ds @ '')'' @ post)" by simp
    with no_marker_before[OF assms(4) k] have "markerStrip (drop (length pre') s) = None" by simp
    moreover have "markerStrip (''(#'' @ ds' @ '')'' @ post') = Some (ds', post')"
      using a(2,3) by (intro markerStrip_Some_iff[THEN iffD2]) simp
    with a(1) have "markerStrip (drop (length pre') s) = Some (ds', post')" by simp
    ultimately show False by simp
  qed
qed

lemma FindStringSubmatch_empty: "(FindStringSubmatch r s = []) = (search r s = None)"
  by (auto simp: FindStringSubmatch_def submatches_def split: option.splits)

lemma MatchString_iff: "MatchString r s = (FindStringSubmatch r s \<noteq> [])"
  by (simp add: MatchString_def FindStringSubmatch_empty)

section \<open>The pull-request number of a commit\<close>

lemma Atoi_Inl: "Atoi s = Inl e \<Longrightarrow> \<exists>why. e = NumError ''Atoi'' s why"
  by (auto simp: Atoi_def Let_def split: if_splits)


lemma PRFromCommit_noMatch:
  "(fst (PRFromCommit client commit opts w) = Inl (ErrorsNew noMatchPR))
     = (\<not> hasMarker (Message commit))"
proof (cases "search prExp (Message commit)")
  case None
  then show ?thesis
    using search_prExp_None[of "Message commit"]
    by (simp add: PRFromCommit_def Let_def FindStringSubmatch_empty)
next
  case (Some m)
  then have hm: "hasMarker (Message commit)"
    using search_prExp_None[of "Message commit"] by simp
  from Some have ne: "FindStringSubmatch prExp (Message commit) \<noteq> []"
    by (simp add: FindStringSubmatch_empty)
  have "fst (PRFromCommit client commit opts w) \<noteq> Inl (ErrorsNew noMatchPR)"
    using ne
    by (auto simp: PRFromCommit_def Let_def split: sum.splits prod.splits dest: Atoi_Inl)
  with hm show ?thesis by simp
qed

lemma PRFromCommit_number:
  assumes "Message commit = pre @ ''(#'' @ ds @ '')'' @ post" "ds \<noteq> []" "list_all isDigit ds"
    and "\<not> hasMarker pre"
  shows "PRFromCommit client commit opts w =
           (if 2 ^ 63 - 1 < decimal ds then (Inl (NumError ''Atoi'' ds ErrRange), w)
            else (case PullRequestsGet client (org (configFromOpts opts))
                          (repo (configFromOpts opts)) (decimal ds) w of
                    (Inl msg, w') \<Rightarrow> (Inl (ApiError msg), w')
                  | (Inr pr, w') \<Rightarrow> (Inr pr, w')))"
proof -
  from search_prExp_first[OF assms] obtain whole where
    m: "FindStringSubmatch prExp (Message commit) = [whole, ds]"
    using FindStringSubmatch_prExp by blast
  show ?thesis
    by (simp add: PRFromCommit_def Let_def m number_of_match Atoi_digits[OF assms(2,3)])
qed

text \<open>The number \<open>Atoi\<close> reads is the one \<open>%d\<close> prints.\<close>

lemma decimal_snoc: "decimal (ds @ [c]) = 10 * decimal ds + digitVal c"
  by (simp add: decimal_def)

lemma digitVal_digit: "d < 10 \<Longrightarrow> digitVal (digitChars ! d) = int d"
proof -
  assume "d < 10"
  then have "d \<in> {0, 1, 2, 3, 4, 5, 6, 7, 8, 9}" by auto
  then show ?thesis by (auto simp: digitVal_def digitChars_def)
qed

lemma decimal_natDigits: "decimal (natDigits n) = int n"
proof (induction n rule: natDigits.induct)
  case (1 n)
  show ?case
  proof (cases "n < 10")
    case True
    then show ?thesis
      using digitVal_digit[of n] by (simp add: natDigits.simps[of n] decimal_def)
  next
    case False
    then have "decimal (natDigits n) = 10 * decimal (natDigits (n div 10)) + digitVal (digitChars ! (n mod 10))"
      by (simp add: natDigits.simps[of n] decimal_snoc)
    also have "\<dots> = 10 * int (n div 10) + int (n mod 10)"
      using "1.IH"[OF False] digitVal_digit[of "n mod 10"] by simp
    also have "\<dots> = int n" by (simp add: zdiv_int zmod_int)
    finally show ?thesis .
  qed
qed

text \<open>Without a marker no remote call is made, and both callers go on to the next commit:
  the filter silently, the assembly after a record in the log.\<close>

lemma PRFromCommit_noMatch_eq:
  "\<not> hasMarker (Message commit) \<Longrightarrow>
     PRFromCommit client commit opts w = (Inl (ErrorsNew noMatchPR), w)"
  using search_prExp_None[of "Message commit"]
  by (simp add: PRFromCommit_def Let_def FindStringSubmatch_empty)

lemma commitsLoop_noMatch:
  "\<not> hasMarker (Message commit) \<Longrightarrow>
     commitsLoop client opts (commit # commits) acc w = commitsLoop client opts commits acc w"
  by (simp add: PRFromCommit_noMatch_eq)

lemma notesLoop_noMatch:
  "\<not> hasMarker (Message commit) \<Longrightarrow> AuthorLogin commit \<noteq> ''netdatabot'' \<Longrightarrow>
     notesLoop p client opts (commit # commits) cache acc lg w =
       notesLoop p client opts commits cache acc
         (lg @ [(Wrapf (''error parsing release note from commit '' @ SHA commit)
                       (ErrorsNew noMatchPR), SHA commit)]) w"
  by (simp add: ReleaseNoteFromCommit_PR_fails[OF PRFromCommit_noMatch_eq])

text \<open>
  C2, amended. \<open>PRFromCommit\<close> fails with the no-match error exactly when the commit
  message, taken as a whole and not only its first line, contains no marker
  \<open>(#digits)\<close>. When the message contains a marker, the number looked up is the one the
  digits of the leftmost marker denote, provided it fits a 64-bit integer, and the
  result is the result of that lookup; a number that does not fit gives the range error
  of \<open>strconv.Atoi\<close>. On the no-match error the loop of \<open>ListCommitsWithNotes\<close> and
  the loop of \<open>ListReleaseNotes\<close> go on with the next commit.
\<close>

theorem pr_number_extraction:
  "((fst (PRFromCommit client commit opts w) = Inl (ErrorsNew noMatchPR))
      = (\<not> hasMarker (Message commit)))
   \<and> (\<forall>pre ds post.
         Message commit = pre @ ''(#'' @ ds @ '')'' @ post \<and> ds \<noteq> [] \<and> list_all isDigit ds
         \<and> \<not> hasMarker pre
         \<longrightarrow> PRFromCommit client commit opts w =
               (if 2 ^ 63 - 1 < decimal ds then (Inl (NumError ''Atoi'' ds ErrRange), w)
                else (case PullRequestsGet client (org (configFromOpts opts))
                              (repo (configFromOpts opts)) (decimal ds) w of
                        (Inl msg, w') \<Rightarrow> (Inl (ApiError msg), w')
                      | (Inr pr, w') \<Rightarrow> (Inr pr, w'))))
   \<and> (\<not> hasMarker (Message commit) \<longrightarrow>
        commitsLoop client opts (commit # commits) acc w = commitsLoop client opts commits acc w
        \<and> (AuthorLogin commit \<noteq> ''netdatabot'' \<longrightarrow>
             notesLoop p client opts (commit # commits) cache kept lg w =
               notesLoop p client opts commits cache kept
                 (lg @ [(Wrapf (''error parsing release note from commit '' @ SHA commit)
                               (ErrorsNew noMatchPR), SHA commit)]) w))"
proof (intro conjI allI impI)
  show "(fst (PRFromCommit client commit opts w) = Inl (ErrorsNew noMatchPR))
          = (\<not> hasMarker (Message commit))"
    by (rule PRFromCommit_noMatch)
next
  fix pre ds post
  assume a: "Message commit = pre @ ''(#'' @ ds @ '')'' @ post \<and> ds \<noteq> [] \<and> list_all isDigit ds
             \<and> \<not> hasMarker pre"
  then have a1: "Message commit = pre @ ''(#'' @ ds @ '')'' @ post" and a2: "ds \<noteq> []"
    and a3: "list_all isDigit ds" and a4: "\<not> hasMarker pre"
    by blast+
  show "PRFromCommit client commit opts w =
               (if 2 ^ 63 - 1 < decimal ds then (Inl (NumError ''Atoi'' ds ErrRange), w)
                else (case PullRequestsGet client (org (configFromOpts opts))
                              (repo (configFromOpts opts)) (decimal ds) w of
                        (Inl msg, w') \<Rightarrow> (Inl (ApiError msg), w')
                      | (Inr pr, w') \<Rightarrow> (Inr pr, w')))"
    by (rule PRFromCommit_number[OF a1 a2 a3 a4])
next
  assume "\<not> hasMarker (Message commit)"
  then show "commitsLoop client opts (commit # commits) acc w
               = commitsLoop client opts commits acc w"
    by (rule commitsLoop_noMatch)
next
  assume "\<not> hasMarker (Message commit)" and "AuthorLogin commit \<noteq> ''netdatabot''"
  then show "notesLoop p client opts (commit # commits) cache kept lg w =
               notesLoop p client opts commits cache kept
                 (lg @ [(Wrapf (''error parsing release note from commit '' @ SHA commit)
                               (ErrorsNew noMatchPR), SHA commit)]) w"
    by (rule notesLoop_noMatch)
qed

theorem pr_number_extraction_witness:
  "Message widgetCommit = ''Fix widget rendering '' @ ''(#'' @ ''1234'' @ '')'' @ []
   \<and> list_all isDigit ''1234'' \<and> \<not> hasMarker ''Fix widget rendering ''
   \<and> decimal ''1234'' = 1234
   \<and> PRFromCommit widgetClient widgetCommit [] 0 = (Inr widgetPR, 1)
   \<and> \<not> hasMarker ''Merge branch''
   \<and> fst (PRFromCommit widgetClient \<lparr>SHA = ''f6'', Message = ''Merge branch'', AuthorLogin = ''fay''\<rparr>
             [] 0) = Inl (ErrorsNew noMatchPR)
   \<and> commitsLoop widgetClient []
         [\<lparr>SHA = ''f6'', Message = ''Merge branch'', AuthorLogin = ''fay''\<rparr>, widgetCommit] [] 0
       = commitsLoop widgetClient [] [widgetCommit] [] 0"
proof -
  have h1: "Message widgetCommit = ''Fix widget rendering '' @ ''(#'' @ ''1234'' @ '')'' @ []"
    by code_simp
  have h2: "''1234'' \<noteq> []" "list_all isDigit ''1234''" "decimal ''1234'' = 1234"
    by code_simp+
  have "search prExp ''Fix widget rendering '' = None" by code_simp
  then have h3: "\<not> hasMarker ''Fix widget rendering ''" by (rule iffD1[OF search_prExp_None])
  have "search prExp ''Merge branch'' = None" by code_simp
  then have h4: "\<not> hasMarker ''Merge branch''" by (rule iffD1[OF search_prExp_None])
  have h5: "PullRequestsGet widgetClient (org (configFromOpts [])) (repo (configFromOpts [])) 1234 0
              = (Inr widgetPR, 1)"
    by code_simp
  note t = pr_number_extraction[of widgetClient widgetCommit "[]" 0 "[]" "[]" stubPrettify "{}" "[]" "[]"]
  from t h1 h2 h3 have "PRFromCommit widgetClient widgetCommit [] 0 =
      (if 2 ^ 63 - 1 < decimal ''1234'' then (Inl (NumError ''Atoi'' ''1234'' ErrRange), 0)
       else (case PullRequestsGet widgetClient (org (configFromOpts []))
                              (repo (configFromOpts [])) (decimal ''1234'') 0 of
                        (Inl msg, w') \<Rightarrow> (Inl (ApiError msg), w')
                      | (Inr pr, w') \<Rightarrow> (Inr pr, w')))"
    by blast
  with h2 h5 have a: "PRFromCommit widgetClient widgetCommit [] 0 = (Inr widgetPR, 1)" by simp
  note t' = pr_number_extraction[of widgetClient
         "\<lparr>SHA = ''f6'', Message = ''Merge branch'', AuthorLogin = ''fay''\<rparr>" "[]" 0
         "[widgetCommit]" "[]" stubPrettify "{}" "[]" "[]"]
  from t' h4
  have b: "fst (PRFromCommit widgetClient
                  \<lparr>SHA = ''f6'', Message = ''Merge branch'', AuthorLogin = ''fay''\<rparr> [] 0)
             = Inl (ErrorsNew noMatchPR)"
    by simp
  from t' h4
  have c: "commitsLoop widgetClient []
         [\<lparr>SHA = ''f6'', Message = ''Merge branch'', AuthorLogin = ''fay''\<rparr>, widgetCommit] [] 0
       = commitsLoop widgetClient [] [widgetCommit] [] 0"
    by simp
  from h1 h2 h3 h4 a b c show ?thesis by blast
qed

text \<open>
  C2 as stated fails in both directions: a message whose first line has no marker but
  whose third line has one gives the pull request, and a first line ending in a marker
  whose number is too large gives an error.
\<close>

theorem pr_number_first_line_counterexample:
  "scanFirstLine (Message laterLineCommit) = ''Fix widget''
   \<and> \<not> MatchString prExp ''Fix widget''
   \<and> PRFromCommit widgetClient laterLineCommit [] 0 = (Inr widgetPR, 1)
   \<and> scanFirstLine (Message hugeCommit) = ''Fix widget (#99999999999999999999)''
   \<and> PRFromCommit widgetClient hugeCommit [] 0
       = (Inl (NumError ''Atoi'' ''99999999999999999999'' ErrRange), 0)"
  by code_simp

section \<open>The issue numbers of a commit\<close>

lemma ms_Seq_mem:
  "((rest, cp) \<in> set (ms (Seq a b) s cp0)) =
     (\<exists>s1 cp1. (s1, cp1) \<in> set (ms a s cp0) \<and> (rest, cp) \<in> set (ms b s1 cp1))"
  by auto

lemma ms_Star_Cls_mem:
  "(s', cp') \<in> set (ms (Star (Cls cs)) s cp) \<Longrightarrow> \<exists>ds. s = ds @ s' \<and> set ds \<subseteq> set cs"
proof (induction s)
  case Nil
  then show ?case by simp
next
  case (Cons x xs)
  show ?case
  proof (cases "x \<in> set cs")
    case True
    with Cons.prems have "(s', cp') \<in> set (ms (Star (Cls cs)) xs cp) \<or> s' = x # xs"
      by auto
    then show ?thesis
    proof
      assume "(s', cp') \<in> set (ms (Star (Cls cs)) xs cp)"
      from Cons.IH[OF this] obtain ds where "xs = ds @ s'" "set ds \<subseteq> set cs" by blast
      with True have "x # xs = (x # ds) @ s' \<and> set (x # ds) \<subseteq> set cs" by simp
      then show ?thesis by blast
    next
      assume "s' = x # xs"
      then have "x # xs = [] @ s' \<and> set [] \<subseteq> set cs" by simp
      then show ?thesis by blast
    qed
  next
    case False
    with Cons.prems have "s' = x # xs" by auto
    then have "x # xs = [] @ s' \<and> set [] \<subseteq> set cs" by simp
    then show ?thesis by blast
  qed
qed

lemma ms_Grp_Plus_Cls_mem:
  assumes "(rest, cp) \<in> set (ms (Grp n name (Plus (Cls cs))) s cp0)"
  shows "\<exists>ds. cp n = Some ds \<and> ds \<noteq> [] \<and> set ds \<subseteq> set cs"
proof -
  from assms obtain cp' where m: "(rest, cp') \<in> set (ms (Plus (Cls cs)) s cp0)"
    and cp: "cp = cp'(n \<mapsto> take (length s - length rest) s)"
    by auto
  from m obtain x xs where s: "s = x # xs" "x \<in> set cs"
    and st: "(rest, cp') \<in> set (ms (Star (Cls cs)) xs cp0)"
    by (cases s) (auto simp: Plus_def split: if_splits)
  from ms_Star_Cls_mem[OF st] obtain ds where ds: "xs = ds @ rest" "set ds \<subseteq> set cs" by blast
  with s have "take (length s - length rest) s = x # ds" by simp
  with cp s ds show ?thesis by auto
qed

lemma firstMatch_mem: "firstMatch r s = Some m \<Longrightarrow> m \<in> set (ms r s Map.empty)"
  by (auto simp: firstMatch_def split: list.splits)

lemma search_mem:
  "search r s = Some (pre, rest, cp) \<Longrightarrow> (rest, cp) \<in> set (ms r (drop (length pre) s) Map.empty)"
proof -
  assume "search r s = Some (pre, rest, cp)"
  then have "scan (firstMatch r) s = Some (pre, rest, cp)"
    by (auto simp: search_scan split: option.splits)
  then obtain s' where "s = pre @ s'" "firstMatch r s' = Some (rest, cp)"
    unfolding scan_Some_iff by blast
  then show ?thesis using firstMatch_mem by fastforce
qed

lemma issueExp_shape:
  "\<exists>K Sp Op. issueExp = Seq (Grp 1 [] K) (Seq Sp (Seq Op (Grp 2 ''number'' (Plus (Cls digitChars)))))"
  by (simp add: issueExp_def Plus_def reDigit_def digitChars_def lowers_def uppers_def Opt_def)

lemma NumSubexp_issueExp: "NumSubexp issueExp = 2"
  by code_simp

lemma SubexpNames_issueExp: "SubexpNames issueExp = [[], [], ''number'']"
  by code_simp

lemma issue_group_digits:
  assumes "search issueExp s = Some (pre, rest, cp)"
  shows "\<exists>ds. cp 2 = Some ds \<and> ds \<noteq> [] \<and> list_all isDigit ds"
proof -
  obtain K Sp Op where
    sh: "issueExp = Seq (Grp 1 [] K) (Seq Sp (Seq Op (Grp 2 ''number'' (Plus (Cls digitChars)))))"
    using issueExp_shape by blast
  from search_mem[OF assms] sh obtain s3 cp3 where
    "(rest, cp) \<in> set (ms (Grp 2 ''number'' (Plus (Cls digitChars))) s3 cp3)"
    unfolding sh ms_Seq_mem by blast
  from ms_Grp_Plus_Cls_mem[OF this] obtain ds where
    "cp 2 = Some ds" "ds \<noteq> []" "set ds \<subseteq> set digitChars" by blast
  then show ?thesis by (auto simp: list_all_iff isDigit_def)
qed

lemma FindAllStringSubmatch_empty: "(FindAllStringSubmatch r s = []) = (search r s = None)"
  by (auto simp: FindAllStringSubmatch.simps[of r s] split: option.splits)

lemma FindAllStringSubmatch_first:
  "search r s = Some m \<Longrightarrow> FindAllStringSubmatch r s ! 0 = FindStringSubmatch r s"
  by (cases m) (simp add: FindAllStringSubmatch.simps[of r s] FindStringSubmatch_def)

lemma issuesLoop_issueExp:
  "issuesLoop (enumerate 0 (SubexpNames issueExp)) m [] =
     (case Atoi (m ! 2) of Inl err \<Rightarrow> Inl err | Inr number \<Rightarrow> Inr [number])"
  by (simp add: SubexpNames_issueExp enumerate_eq_zip upt_rec numeral_2_eq_2 split: sum.splits)

lemma IssueNumbersFromCommit_match:
  assumes "MatchString issueExp (Message commit)"
  shows "\<exists>ds. FindStringSubmatch issueExp (Message commit) ! 2 = ds \<and> ds \<noteq> []
            \<and> list_all isDigit ds
            \<and> IssueNumbersFromCommit commit =
                (if 2 ^ 63 - 1 < decimal ds then Inl (NumError ''Atoi'' ds ErrRange)
                 else Inr [decimal ds])"
proof -
  from assms obtain pre rest cp where m: "search issueExp (Message commit) = Some (pre, rest, cp)"
    by (auto simp: MatchString_def)
  from issue_group_digits[OF m] obtain ds where
    ds: "cp 2 = Some ds" "ds \<noteq> []" "list_all isDigit ds" by blast
  have g: "FindStringSubmatch issueExp (Message commit) ! 2 = ds"
    using m ds(1)
    by (simp add: FindStringSubmatch_def submatches_def NumSubexp_issueExp upt_rec numeral_2_eq_2)
  have ne: "FindAllStringSubmatch issueExp (Message commit) \<noteq> []"
    using m by (simp add: FindAllStringSubmatch_empty)
  have "IssueNumbersFromCommit commit =
          (case Atoi (FindStringSubmatch issueExp (Message commit) ! 2) of
             Inl err \<Rightarrow> Inl err | Inr number \<Rightarrow> Inr [number])"
    using ne FindAllStringSubmatch_first[OF m]
    by (simp add: IssueNumbersFromCommit_def Let_def issuesLoop_issueExp)
  with g have "IssueNumbersFromCommit commit =
                (if 2 ^ 63 - 1 < decimal ds then Inl (NumError ''Atoi'' ds ErrRange)
                 else Inr [decimal ds])"
    by (simp add: Atoi_digits[OF ds(2,3)])
  with g ds show ?thesis by blast
qed

lemma IssueNumbersFromCommit_noMatch:
  "(IssueNumbersFromCommit commit = Inl (ErrorsNew noMatchIssues))
     = (\<not> MatchString issueExp (Message commit))"
proof (cases "MatchString issueExp (Message commit)")
  case True
  from IssueNumbersFromCommit_match[OF True] show ?thesis
    using True by (auto split: if_splits)
next
  case False
  then have "search issueExp (Message commit) = None"
    unfolding MatchString_def by blast
  then have "FindAllStringSubmatch issueExp (Message commit) = []"
    by (simp only: FindAllStringSubmatch_empty)
  with False show ?thesis by (simp add: IssueNumbersFromCommit_def)
qed

text \<open>
  C10, amended. \<open>IssueNumbersFromCommit\<close> returns the no-match error exactly when the
  pattern does not match the message. When it matches, only the first match is read: its
  second group is a non-empty string of digits, and the result is the list of that one
  number if the number fits a 64-bit integer, the range error of \<open>strconv.Atoi\<close> if it
  does not.
\<close>

theorem issue_numbers_first_match:
  "((IssueNumbersFromCommit commit = Inl (ErrorsNew noMatchIssues))
      = (\<not> MatchString issueExp (Message commit)))
   \<and> (MatchString issueExp (Message commit) \<longrightarrow>
        (\<exists>ds. FindStringSubmatch issueExp (Message commit) ! 2 = ds \<and> ds \<noteq> []
            \<and> list_all isDigit ds
            \<and> IssueNumbersFromCommit commit =
                (if 2 ^ 63 - 1 < decimal ds then Inl (NumError ''Atoi'' ds ErrRange)
                 else Inr [decimal ds])))"
proof (intro conjI impI)
  show "(IssueNumbersFromCommit commit = Inl (ErrorsNew noMatchIssues))
          = (\<not> MatchString issueExp (Message commit))"
    by (rule IssueNumbersFromCommit_noMatch)
next
  assume "MatchString issueExp (Message commit)"
  then show "\<exists>ds. FindStringSubmatch issueExp (Message commit) ! 2 = ds \<and> ds \<noteq> []
            \<and> list_all isDigit ds
            \<and> IssueNumbersFromCommit commit =
                (if 2 ^ 63 - 1 < decimal ds then Inl (NumError ''Atoi'' ds ErrRange)
                 else Inr [decimal ds])"
    by (rule IssueNumbersFromCommit_match)
qed

theorem issue_numbers_first_match_witness:
  "MatchString issueExp (Message twoIssuesCommit)
   \<and> FindAllStringSubmatch issueExp (Message twoIssuesCommit)
       = [[''Fixes #12'', ''Fixes'', ''12''], [''closes 34'', ''closes'', ''34'']]
   \<and> IssueNumbersFromCommit twoIssuesCommit = Inr [12]
   \<and> \<not> MatchString issueExp (Message widgetCommit)
   \<and> IssueNumbersFromCommit widgetCommit = Inl (ErrorsNew noMatchIssues)"
proof -
  have h1: "MatchString issueExp (Message twoIssuesCommit)"
    by code_simp
  have h2: "FindStringSubmatch issueExp (Message twoIssuesCommit) ! 2 = ''12''"
    "decimal ''12'' = 12"
    by code_simp+
  have h3: "FindAllStringSubmatch issueExp (Message twoIssuesCommit)
       = [[''Fixes #12'', ''Fixes'', ''12''], [''closes 34'', ''closes'', ''34'']]"
    by code_simp
  have h4: "\<not> MatchString issueExp (Message widgetCommit)"
    by code_simp
  from issue_numbers_first_match[of twoIssuesCommit] h1 h2
  have a: "IssueNumbersFromCommit twoIssuesCommit = Inr [12]" by auto
  from issue_numbers_first_match[of widgetCommit] h4
  have b: "IssueNumbersFromCommit widgetCommit = Inl (ErrorsNew noMatchIssues)" by blast
  from h1 h3 h4 a b show ?thesis by blast
qed

text \<open>
  C10 as stated fails: the pattern matches a message whose first issue number has twenty
  digits, and the result is an error, not a list of one number.
\<close>

theorem issue_number_overflow_counterexample:
  "MatchString issueExp (Message hugeIssueCommit)
   \<and> FindStringSubmatch issueExp (Message hugeIssueCommit)
       = [''Fix 99999999999999999999'', ''Fix'', ''99999999999999999999'']
   \<and> IssueNumbersFromCommit hugeIssueCommit
       = Inl (NumError ''Atoi'' ''99999999999999999999'' ErrRange)"
  by code_simp

section \<open>The text of an assembled note\<close>

text \<open>Replacing every match of a pattern by nothing removes every occurrence of what
  the pattern reads, when the pattern reads at least one character.\<close>

lemma deleteAll_none:
  "(\<forall>k \<le> length s. m (drop k s) = None) \<Longrightarrow> deleteAll m s = s"
proof (induction s)
  case Nil
  then show ?case by (simp add: deleteAll.simps[of m "[]"])
next
  case (Cons c cs)
  from Cons.prems have "m (drop 0 (c # cs)) = None" by blast
  then have here: "m (c # cs) = None" by simp
  have "\<forall>k \<le> length cs. m (drop k cs) = None"
  proof (intro allI impI)
    fix k assume "k \<le> length cs"
    then have "Suc k \<le> length (c # cs)" by simp
    with Cons.prems have "m (drop (Suc k) (c # cs)) = None" by blast
    then show "m (drop k cs) = None" by simp
  qed
  with Cons.IH have "deleteAll m cs = cs" by simp
  with here show ?case by (simp add: deleteAll.simps[of m "c # cs"])
qed

lemma deleteAll_skip:
  "(\<forall>k < length pre. m (drop k (pre @ s')) = None) \<Longrightarrow>
     deleteAll m (pre @ s') = pre @ deleteAll m s'"
proof (induction pre)
  case Nil
  then show ?case by simp
next
  case (Cons c pre)
  from Cons.prems have "m (drop 0 ((c # pre) @ s')) = None" by (metis length_greater_0_conv list.discI)
  then have here: "m (c # pre @ s') = None" by simp
  have "\<forall>k < length pre. m (drop k (pre @ s')) = None"
  proof (intro allI impI)
    fix k assume "k < length pre"
    then have "Suc k < length (c # pre)" by simp
    with Cons.prems have "m (drop (Suc k) ((c # pre) @ s')) = None" by blast
    then show "m (drop k (pre @ s')) = None" by simp
  qed
  with Cons.IH have "deleteAll m (pre @ s') = pre @ deleteAll m s'" by simp
  with here show ?case by (simp add: deleteAll.simps[of m "c # pre @ s'"])
qed

lemma deleteAll_hit:
  "m s = Some rest \<Longrightarrow> length rest < length s \<Longrightarrow> deleteAll m s = deleteAll m rest"
  by (cases s) (simp_all add: deleteAll.simps[of m s])

lemma ReplaceAllString_deleteAll:
  assumes fm: "\<And>t. map_option fst (firstMatch r t) = m t"
    and cons: "\<And>t rest. m t = Some rest \<Longrightarrow> length rest < length t"
  shows "ReplaceAllString r s [] = deleteAll m s"
proof (induction "length s" arbitrary: s rule: less_induct)
  case less
  show ?case
  proof (cases "search r s")
    case None
    then have "scan (firstMatch r) s = None"
      by (auto simp: search_scan split: option.splits)
    then have "\<forall>k \<le> length s. firstMatch r (drop k s) = None"
      by (simp only: scan_None_iff)
    then have "\<forall>k \<le> length s. m (drop k s) = None"
      using fm by (metis option.map_disc_iff)
    then have "deleteAll m s = s" by (rule deleteAll_none[of s m])
    with None show ?thesis by (simp add: ReplaceAllString.simps[of r s])
  next
    case (Some x)
    obtain pre rest cp where x: "x = (pre, rest, cp)" by (cases x)
    with Some have "scan (firstMatch r) s = Some (pre, rest, cp)"
      by (auto simp: search_scan split: option.splits)
    then obtain s' where s: "s = pre @ s'" and hit: "firstMatch r s' = Some (rest, cp)"
      and before: "\<forall>k < length pre. firstMatch r (drop k s) = None"
      unfolding scan_Some_iff by blast
    from hit fm[of s'] have mh: "m s' = Some rest" by simp
    from cons[OF mh] have shorter: "length rest < length s'" .
    with s have shorter': "length rest < length s" by simp
    from before fm have "\<forall>k < length pre. m (drop k (pre @ s')) = None"
      unfolding s by (metis option.map_disc_iff)
    then have "deleteAll m s = pre @ deleteAll m s'"
      unfolding s by (rule deleteAll_skip[of pre m s'])
    also have "deleteAll m s' = deleteAll m rest"
      by (rule deleteAll_hit[of m s' rest, OF mh shorter])
    also have "deleteAll m rest = ReplaceAllString r rest []"
      using less[OF shorter'] by simp
    finally show ?thesis
      using Some x shorter' by (simp add: ReplaceAllString.simps[of r s])
  qed
qed

lemma afterMarker_Some_iff:
  "(afterMarker s = Some rest) =
     (\<exists>ds. s = ''(#'' @ ds @ '')'' @ rest \<and> ds \<noteq> [] \<and> list_all isDigit ds)"
proof -
  have "(afterMarker s = Some rest) = (\<exists>ds. markerStrip s = Some (ds, rest))"
    by (auto simp: afterMarker_def)
  then show ?thesis by (simp only: markerStrip_Some_iff)
qed

lemma ReplaceAllString_prExp: "ReplaceAllString prExp s [] = deleteAll afterMarker s"
proof (rule ReplaceAllString_deleteAll)
  fix t
  show "map_option fst (firstMatch prExp t) = afterMarker t"
    by (simp add: firstMatch_prExp afterMarker_def split: option.splits)
next
  fix t rest
  assume "afterMarker t = Some rest"
  then obtain ds where "t = ''(#'' @ ds @ '')'' @ rest" unfolding afterMarker_Some_iff by blast
  then show "length rest < length t" by simp
qed

lemma deleteAll_trailing_marker:
  assumes "ds \<noteq> []" "list_all isDigit ds" "\<not> hasMarker pre"
  shows "deleteAll afterMarker (pre @ ''(#'' @ ds @ '')'') = pre"
proof -
  have "\<forall>k < length pre. afterMarker (drop k (pre @ (''(#'' @ ds @ '')''))) = None"
    using no_marker_before[OF assms(3)] by (simp add: afterMarker_def)
  then have "deleteAll afterMarker (pre @ (''(#'' @ ds @ '')'')) =
               pre @ deleteAll afterMarker (''(#'' @ ds @ '')'')"
    by (rule deleteAll_skip[of pre afterMarker "''(#'' @ ds @ '')''"])
  moreover have "afterMarker (''(#'' @ ds @ '')'') = Some []"
    unfolding afterMarker_Some_iff using assms(1,2) by simp
  then have "deleteAll afterMarker (''(#'' @ ds @ '')'') = deleteAll afterMarker []"
    by (rule deleteAll_hit[of afterMarker "''(#'' @ ds @ '')''" "[]"]) simp
  ultimately show ?thesis by (simp add: deleteAll.simps[of afterMarker "[]"])
qed

lemma Text_of_note:
  "ReleaseNoteFromCommit p c client opts w = (Inr n, w') \<Longrightarrow> Text n = noteText c"
  by (auto simp: ReleaseNoteFromCommit_def noteOf_def Let_def
           split: sum.splits prod.splits if_splits)

text \<open>
  C5, amended. The text of every assembled note is the first line of the commit message,
  as the scanner reads it, with every marker \<open>(#digits)\<close> removed wherever it stands, and
  the white space around the result trimmed. When the line ends in a marker and has no
  other, the text is the trimmed text before that marker.
\<close>

theorem note_text_markers_removed:
  assumes "ReleaseNoteFromCommit p commit client opts w = (Inr note, w')"
  shows "Text note = TrimSpace (deleteAll afterMarker (scanFirstLine (Message commit)))
         \<and> (\<forall>pre ds. scanFirstLine (Message commit) = pre @ ''(#'' @ ds @ '')'' \<and> ds \<noteq> []
                     \<and> list_all isDigit ds \<and> \<not> hasMarker pre
               \<longrightarrow> Text note = TrimSpace pre)"
proof -
  have t: "Text note = TrimSpace (deleteAll afterMarker (scanFirstLine (Message commit)))"
    using Text_of_note[OF assms] by (simp only: noteText_def ReplaceAllString_prExp)
  have "Text note = TrimSpace pre"
    if "scanFirstLine (Message commit) = pre @ ''(#'' @ ds @ '')'' \<and> ds \<noteq> []
          \<and> list_all isDigit ds \<and> \<not> hasMarker pre" for pre ds
  proof -
    from that have l: "scanFirstLine (Message commit) = pre @ ''(#'' @ ds @ '')''"
      and d: "ds \<noteq> []" "list_all isDigit ds" "\<not> hasMarker pre" by blast+
    from t show ?thesis unfolding l by (simp only: deleteAll_trailing_marker[OF d])
  qed
  with t show ?thesis by blast
qed

theorem note_text_markers_removed_witness:
  "ReleaseNoteFromCommit stubPrettify widgetCommit widgetClient [] 0 = (Inr widgetNote, 1)
   \<and> scanFirstLine (Message widgetCommit) = ''Fix widget rendering '' @ ''(#'' @ ''1234'' @ '')''
   \<and> list_all isDigit ''1234'' \<and> \<not> hasMarker ''Fix widget rendering ''
   \<and> Text widgetNote = ''Fix widget rendering''"
proof -
  have h1: "ReleaseNoteFromCommit stubPrettify widgetCommit widgetClient [] 0 = (Inr widgetNote, 1)"
    by code_simp
  have h2: "scanFirstLine (Message widgetCommit) = ''Fix widget rendering '' @ ''(#'' @ ''1234'' @ '')''"
    by code_simp
  have h3: "''1234'' \<noteq> []" "list_all isDigit ''1234''"
    by code_simp+
  have "search prExp ''Fix widget rendering '' = None" by code_simp
  then have h4: "\<not> hasMarker ''Fix widget rendering ''" by (rule iffD1[OF search_prExp_None])
  have h5: "TrimSpace ''Fix widget rendering '' = ''Fix widget rendering''"
    by code_simp
  from note_text_markers_removed[OF h1] h2 h3 h4
  have "Text widgetNote = TrimSpace ''Fix widget rendering ''" by blast
  with h1 h2 h3 h4 h5 show ?thesis by simp
qed

text \<open>
  C5 as stated fails: of two markers in the first line, the claim has the last one
  stripped and the text before it kept; the program removes both.
\<close>

theorem note_text_two_markers_counterexample:
  "ReleaseNoteFromCommit stubPrettify twoMarkersCommit twoMarkersClient [] 0
     = (Inr twoMarkersNote, 1)
   \<and> Text twoMarkersNote = ''Fix  foo''
   \<and> claimedText (Message twoMarkersCommit) = ''Fix (#1) foo''"
  by code_simp

section \<open>The note text of a string\<close>

text \<open>Under \<open>(?i)\<close> a character other than s and k matches its two cases, and a word the
  same word in any case.\<close>

lemma ms_Seq_Eps: "ms (Seq a Eps) s cp = ms a s cp"
proof -
  have "\<And>xs :: (string \<times> caps) list. concat (map (\<lambda>(x, y). ms Eps x y) xs) = xs"
    by (induct_tac xs) auto
  then have "concat (map (\<lambda>(x, y). ms Eps x y) (ms a s cp)) = ms a s cp" .
  then show ?thesis by (subst ms.simps(5))
qed

lemma ms_Seq_Seq_Eps: "ms (Seq (Seq a Eps) b) s cp = ms (Seq a b) s cp"
proof -
  have "ms (Seq (Seq a Eps) b) s cp
          = concat (map (\<lambda>(s', cp'). ms b s' cp') (ms (Seq a Eps) s cp))"
    by (rule ms.simps(5))
  also have "\<dots> = concat (map (\<lambda>(s', cp'). ms b s' cp') (ms a s cp))"
    by (simp only: ms_Seq_Eps)
  also have "\<dots> = ms (Seq a b) s cp"
    by (rule ms.simps(5)[symmetric])
  finally show ?thesis .
qed

lemma letters_distinct: "distinct lowers" "distinct uppers" "length lowers = length uppers"
  by (simp_all add: lowers_def uppers_def)

lemma letters_disjoint: "c \<in> set lowers \<Longrightarrow> c \<notin> set uppers"
  by (auto simp: lowers_def uppers_def)

lemma lower_s_k:
  "(u, CHR ''s'') \<in> set (zip uppers lowers) \<Longrightarrow> u = CHR ''S''"
  "(u, CHR ''k'') \<in> set (zip uppers lowers) \<Longrightarrow> u = CHR ''K''"
  by (simp_all add: lowers_def uppers_def)

lemma zip_swap_mem: "((x, y) \<in> set (zip xs ys)) = ((y, x) \<in> set (zip ys xs))"
  by (metis in_set_zip fst_conv snd_conv)


lemma ms_foldChr:
  assumes "c \<notin> set ''skSK''"
  shows "ms (foldChr c) s cp =
           (case s of [] \<Rightarrow> [] | x # xs \<Rightarrow> if sameLetter c x then [(xs, cp)] else [])"
proof -
  let ?LU = "zip lowers uppers" and ?UL = "zip uppers lowers"
  have ml: "map fst ?LU = lowers" and mu: "map fst ?UL = uppers"
    using letters_distinct(3) by simp_all
  have dl: "distinct (map fst ?LU)" and du: "distinct (map fst ?UL)"
    using letters_distinct(1,2) by (simp_all only: ml mu)
  have fl: "fst ` set ?LU = set lowers" and fu: "fst ` set ?UL = set uppers"
    using ml mu by (metis set_map)+
  consider (lower) "c \<in> set lowers" | (upper) "c \<notin> set lowers" "c \<in> set uppers"
    | (other) "c \<notin> set lowers" "c \<notin> set uppers" by blast
  then show ?thesis
  proof cases
    case lower
    then have "c \<in> fst ` set ?LU" by (simp only: fl)
    then obtain u where u: "map_of ?LU c = Some u"
      by (metis domD dom_map_of_conv_image_fst)
    then have mem: "(c, u) \<in> set ?LU" by (rule map_of_SomeD)
    then have "u \<in> set uppers" by (rule set_zip_rightD)
    with lower letters_disjoint have ne: "c \<noteq> u" by blast
    have fc: "foldChr c = Alt (Chr c) (Chr u)"
      using assms u by (simp add: foldChr_def)
    have sl: "sameLetter c x = (x = c \<or> x = u)" for x
    proof -
      have "((c, x) \<in> set ?LU) = (x = u)"
        using map_of_eq_Some_iff[OF dl, of c x] u by auto
      moreover have "(x, c) \<notin> set ?LU"
        using lower letters_disjoint set_zip_rightD by fastforce
      ultimately show ?thesis by (simp add: sameLetter_def)
    qed
    show ?thesis using ne by (cases s) (auto simp: fc sl)
  next
    case upper
    then have none: "map_of ?LU c = None"
      by (simp only: map_of_eq_None_iff fl) simp
    from upper have "c \<in> fst ` set ?UL" by (simp only: fu)
    then obtain l where l: "map_of ?UL c = Some l"
      by (metis domD dom_map_of_conv_image_fst)
    then have mem: "(c, l) \<in> set ?UL" by (rule map_of_SomeD)
    then have "l \<in> set lowers" by (rule set_zip_rightD)
    with upper have ne: "l \<noteq> c" by blast
    from mem assms lower_s_k have nsk: "l \<noteq> CHR ''s''" "l \<noteq> CHR ''k''" by auto
    have fc: "foldChr c = Alt (Chr l) (Chr c)"
      using none l nsk by (simp add: foldChr_def)
    have sl: "sameLetter c x = (x = c \<or> x = l)" for x
    proof -
      have "((x, c) \<in> set ?LU) = ((c, x) \<in> set ?UL)" by (rule zip_swap_mem)
      also have "\<dots> = (x = l)"
        using map_of_eq_Some_iff[OF du, of c x] l by auto
      finally have a: "((x, c) \<in> set ?LU) = (x = l)" .
      have "(c, x) \<notin> set ?LU"
        using upper set_zip_leftD by fastforce
      with a show ?thesis by (simp add: sameLetter_def)
    qed
    show ?thesis using ne by (cases s) (auto simp: fc sl)
  next
    case other
    then have "map_of ?LU c = None" "map_of ?UL c = None"
      by (simp_all only: map_of_eq_None_iff fl fu) simp_all
    then have fc: "foldChr c = Chr c" by (simp add: foldChr_def)
    have sl: "sameLetter c x = (x = c)" for x
    proof -
      have "(c, x) \<notin> set ?LU" using other set_zip_leftD by fastforce
      moreover have "(x, c) \<notin> set ?LU" using other set_zip_rightD by fastforce
      ultimately show ?thesis by (simp add: sameLetter_def)
    qed
    show ?thesis by (cases s) (auto simp: fc sl)
  qed
qed

lemma ms_foldCase_Lit:
  assumes "set word \<inter> set ''skSK'' = {}"
  shows "ms (foldCase (Lit word)) s cp =
           (case ciPrefix word s of None \<Rightarrow> [] | Some rest \<Rightarrow> [(rest, cp)])"
  using assms
proof (induction word arbitrary: s)
  case Nil
  then show ?case by simp
next
  case (Cons c word)
  then have c: "c \<notin> set ''skSK''"
    and w: "set word \<inter> set ''skSK'' = {}" by auto
  show ?case
  proof (cases s)
    case Nil
    then show ?thesis using ms_foldChr[OF c, of "[]" cp] by simp
  next
    case s: (Cons x xs)
    show ?thesis
      using ms_foldChr[OF c, of "x # xs" cp] Cons.IH[OF w, of xs] s by simp
  qed
qed


lemma foldCase_reSpace: "foldCase reSpace = Cls spaceChars"
  by (simp add: reSpace_def spaceChars_def lowers_def uppers_def)

lemma firstMatch_wordThenSpace:
  assumes "set word \<inter> set ''skSK'' = {}"
  shows "map_option fst (firstMatch (foldCase (Seq (Lit word) reSpace)) t) = wordThenSpace word t"
proof -
  have "ms (foldCase (Seq (Lit word) reSpace)) t Map.empty =
          (case wordThenSpace word t of None \<Rightarrow> [] | Some rest \<Rightarrow> [(rest, Map.empty)])"
    by (simp add: ms_foldCase_Lit[OF assms] foldCase_reSpace wordThenSpace_def
             split: option.splits list.splits)
  then show ?thesis by (simp add: firstMatch_def split: option.splits)
qed

lemma ciPrefix_length: "ciPrefix word s = Some r \<Longrightarrow> length r \<le> length s"
proof (induction word s rule: ciPrefix.induct)
  case (3 c cs x xs)
  then show ?case by (auto split: if_splits)
qed simp_all

lemma wordThenSpace_shorter: "wordThenSpace word t = Some rest \<Longrightarrow> length rest < length t"
  by (auto simp: wordThenSpace_def split: option.splits list.splits if_splits
           dest: ciPrefix_length)

lemma ReplaceAllString_word:
  assumes "set word \<inter> set ''skSK'' = {}"
  shows "ReplaceAllString (foldCase (Seq (Lit word) reSpace)) s [] = deleteAll (wordThenSpace word) s"
  by (rule ReplaceAllString_deleteAll[of "foldCase (Seq (Lit word) reSpace)" "wordThenSpace word",
            OF firstMatch_wordThenSpace[OF assms] wordThenSpace_shorter])

lemma stripActionRequired_eq:
  "stripActionRequired s =
     deleteAll (wordThenSpace ''action required:'') (deleteAll (wordThenSpace ''[action required]'') s)"
proof -
  have a: "set ''[action required]'' \<inter> set ''skSK'' = {}" by simp
  have b: "set ''action required:'' \<inter> set ''skSK'' = {}" by simp
  show ?thesis
    unfolding stripActionRequired_def
    by (simp only: foldl.simps ReplaceAllString_word[OF a] ReplaceAllString_word[OF b])
qed

lemma stripStar_eq: "stripStar s = deleteAll (wordThenSpace ''*'') s"
proof -
  have c: "set ''*'' \<inter> set ''skSK'' = {}" by simp
  have fm: "map_option fst (firstMatch (foldCase (Seq (Chr CHR ''*'') reSpace)) t)
              = wordThenSpace ''*'' t" for t
  proof -
    have "ms (foldCase (Seq (Chr CHR ''*'') reSpace)) t Map.empty
            = ms (foldCase (Seq (Lit ''*'') reSpace)) t Map.empty"
      by (simp only: foldCase.simps Lit.simps ms_Seq_Seq_Eps)
    then have "firstMatch (foldCase (Seq (Chr CHR ''*'') reSpace)) t
                 = firstMatch (foldCase (Seq (Lit ''*'') reSpace)) t"
      by (simp only: firstMatch_def)
    then show ?thesis by (simp only: firstMatch_wordThenSpace[OF c])
  qed
  have "ReplaceAllString (foldCase (Seq (Chr CHR ''*'') reSpace)) s [] = deleteAll (wordThenSpace ''*'') s"
    by (rule ReplaceAllString_deleteAll[of "foldCase (Seq (Chr CHR ''*'') reSpace)"
               "wordThenSpace ''*''", OF fm wordThenSpace_shorter])
  then show ?thesis by (simp only: stripStar_def)
qed

lemma clean_eq: "stripStar (stripActionRequired (TrimRight g [CR])) = cleanNote g"
  by (simp add: stripStar_eq stripActionRequired_eq cleanNote_def TrimRight_def)

text \<open>The loop over the fence variants returns at the first that matches; the text it
  cleans is the group of that match.\<close>

lemma noteLoop_nomatch:
  "(\<forall>exp \<in> set exps. \<not> MatchString exp s) \<Longrightarrow> noteLoop exps s = Inl (ErrorsNew noMatchNote)"
  by (induction exps) (simp_all add: MatchString_iff)

lemma noteLoop_first:
  "i < length exps \<Longrightarrow> MatchString (exps ! i) s \<Longrightarrow> (\<forall>j < i. \<not> MatchString (exps ! j) s) \<Longrightarrow>
     noteLoop exps s =
       Inr (stripStar (stripActionRequired
              (TrimRight (lookupStr (namedGroups (exps ! i) (FindStringSubmatch (exps ! i) s)) ''note'')
                         [CR])))"
proof (induction exps arbitrary: i)
  case Nil
  then show ?case by simp
next
  case (Cons exp exps)
  show ?case
  proof (cases i)
    case 0
    with Cons.prems(2) have "FindStringSubmatch exp s \<noteq> []"
      by (simp add: MatchString_iff)
    with 0 show ?thesis by (simp add: Let_def)
  next
    case (Suc k)
    with Cons.prems(3) have "\<not> MatchString ((exp # exps) ! 0) s" by blast
    then have no: "FindStringSubmatch exp s = []"
      by (simp add: MatchString_iff)
    from Suc Cons.prems have k: "k < length exps" "MatchString (exps ! k) s" by simp_all
    have "\<forall>j < k. \<not> MatchString (exps ! j) s"
    proof (intro allI impI)
      fix j assume "j < k"
      then have "Suc j < i" using Suc by simp
      with Cons.prems(3) have "\<not> MatchString ((exp # exps) ! Suc j) s" by blast
      then show "\<not> MatchString (exps ! j) s" by simp
    qed
    from Cons.IH[OF k this] no Suc show ?thesis by (simp add: Let_def)
  qed
qed

lemma SubexpNames_noteExps: "exp \<in> set noteExps \<Longrightarrow> SubexpNames exp = [[], ''note'']"
proof -
  have "list_all (\<lambda>exp. SubexpNames exp = [[], ''note'']) noteExps" by code_simp
  then show "exp \<in> set noteExps \<Longrightarrow> SubexpNames exp = [[], ''note'']"
    by (simp add: list_all_iff)
qed

lemma note_group:
  "exp \<in> set noteExps \<Longrightarrow> lookupStr (namedGroups exp m) ''note'' = m ! 1"
  by (simp add: namedGroups_def SubexpNames_noteExps lookupStr_def enumerate_eq_zip upt_rec)

lemma NoteTextFromString_first:
  assumes "i < length noteExps" "MatchString (noteExps ! i) s"
    "\<forall>j < i. \<not> MatchString (noteExps ! j) s"
  shows "NoteTextFromString s = Inr (cleanNote (FindStringSubmatch (noteExps ! i) s ! 1))"
proof -
  from assms(1) have "noteExps ! i \<in> set noteExps" by simp
  then have "lookupStr (namedGroups (noteExps ! i) (FindStringSubmatch (noteExps ! i) s)) ''note''
               = FindStringSubmatch (noteExps ! i) s ! 1"
    by (rule note_group)
  with noteLoop_first[OF assms] show ?thesis
    by (simp only: NoteTextFromString_def clean_eq)
qed

lemma ms_Star_Dot_hd: "\<exists>more. ms (Star Dot) r cp = (dropWhile (\<lambda>c. c \<noteq> LF) r, cp) # more"
proof (induction r)
  case Nil
  then show ?case by simp
next
  case (Cons x xs)
  then show ?case by (cases "x = LF") auto
qed

lemma firstMatch_fence:
  assumes "line \<noteq> []" "LF \<notin> set line" "rest = [] \<or> hd rest = LF"
  shows "\<exists>cp. firstMatch (Seq (Lit fence) (Grp 1 name (Plus Dot))) (fence @ line @ rest)
               = Some (rest, cp) \<and> cp 1 = Some line"
proof -
  obtain x xs where l: "line = x # xs" using assms(1) by (cases line) auto
  with assms(2) have x: "x \<noteq> LF" by auto
  have dw: "dropWhile (\<lambda>c. c \<noteq> LF) (xs @ rest) = rest"
  proof -
    have "\<forall>c \<in> set xs. c \<noteq> LF" using assms(2) l by auto
    then have "dropWhile (\<lambda>c. c \<noteq> LF) (xs @ rest) = dropWhile (\<lambda>c. c \<noteq> LF) rest"
      by (simp add: dropWhile_append1 dropWhile_append2)
    also have "\<dots> = rest" using assms(3) by (cases rest) auto
    finally show ?thesis .
  qed
  obtain more where st: "ms (Star Dot) (xs @ rest) Map.empty = (rest, Map.empty) # more"
    using ms_Star_Dot_hd[of "xs @ rest" Map.empty] dw by auto
  have "ms (Seq (Lit fence) (Grp 1 name (Plus Dot))) (fence @ line @ rest) Map.empty
          = ms (Grp 1 name (Plus Dot)) (line @ rest) Map.empty"
    by (simp add: ms_Seq_Lit del: ms.simps)
  also have "\<dots> = map (\<lambda>(s', cp'). (s', cp'(1 \<mapsto> take (length (line @ rest) - length s') (line @ rest))))
                    ((rest, Map.empty) # more)"
    using x st by (simp add: l Plus_def)
  finally show ?thesis by (simp add: firstMatch_def)
qed

text \<open>The first variant, at the first fence of a text, captures the rest of the line.\<close>

lemma fence_search:
  assumes "fence \<noteq> []" "hd fence \<notin> set pre"
    and "line \<noteq> []" "LF \<notin> set line" "rest = [] \<or> hd rest = LF"
  shows "\<exists>cp. search (Seq (Lit fence) (Grp 1 name (Plus Dot))) (pre @ fence @ line @ rest)
               = Some (pre, rest, cp) \<and> cp 1 = Some line"
proof -
  let ?r = "Seq (Lit fence) (Grp 1 name (Plus Dot))"
  let ?s = "pre @ fence @ line @ rest"
  from firstMatch_fence[OF assms(3,4,5), of fence name] obtain cp where
    cp: "firstMatch ?r (fence @ line @ rest) = Some (rest, cp)" "cp 1 = Some line" by blast
  have before: "\<forall>k < length pre. firstMatch ?r (drop k ?s) = None"
  proof (intro allI impI)
    fix k assume k: "k < length pre"
    then obtain c cs where d: "drop k pre = c # cs" "c \<in> set pre"
      by (metis Cons_nth_drop_Suc nth_mem)
    with assms(1,2) have "\<not> prefix fence (c # cs @ fence @ line @ rest)"
      by (cases fence) auto
    with d k show "firstMatch ?r (drop k ?s) = None"
      by (simp add: firstMatch_def ms_Seq_Lit del: ms.simps)
  qed
  have "scan (firstMatch ?r) ?s = Some (pre, rest, cp)"
    unfolding scan_Some_iff using cp(1) before by blast
  with cp(2) show ?thesis by (simp add: search_scan)
qed

lemma NoteTextFromString_fence:
  assumes "s = pre @ ''```release-note'' @ [CR, LF] @ line @ rest" "CHR 0x60 \<notin> set pre"
    and "line \<noteq> []" "LF \<notin> set line" "rest = [] \<or> hd rest = LF"
  shows "NoteTextFromString s = Inr (cleanNote line)"
proof -
  let ?fence = "''```release-note'' @ [CR, LF]"
  have e0: "noteExps ! 0 = Seq (Lit ?fence) (Grp 1 ''note'' (Plus Dot))"
    by (simp add: noteExps_def del: Lit.simps)
  have "?fence \<noteq> []" "hd ?fence \<notin> set pre" using assms(2) by simp_all
  from fence_search[OF this assms(3,4,5), of "''note''"] obtain cp where
    cp: "search (noteExps ! 0) s = Some (pre, rest, cp)" "cp 1 = Some line"
    unfolding e0 assms(1) by auto
  have n: "NumSubexp (noteExps ! 0) = 1" by code_simp
  from cp have g: "FindStringSubmatch (noteExps ! 0) s ! 1 = line"
    by (simp add: FindStringSubmatch_def submatches_def n)
  from cp(1) have m: "MatchString (noteExps ! 0) s" by (simp add: MatchString_def)
  have l: "0 < length noteExps" by (simp add: noteExps_def)
  have "NoteTextFromString s = Inr (cleanNote (FindStringSubmatch (noteExps ! 0) s ! 1))"
    by (rule NoteTextFromString_first[OF l m]) simp
  with g show ?thesis by simp
qed

text \<open>
  C3, amended. When none of the four fence variants matches, \<open>NoteTextFromString\<close> fails
  with the no-match error. Otherwise it returns, for the first variant in order that
  matches, the text of the note group of its match, cleaned: every trailing carriage
  return trimmed, then every occurrence of \<open>[action required]\<close> and of
  \<open>action required:\<close> followed by a white-space character removed, in any case of the
  letters, then every occurrence of \<open>*\<close> followed by a white-space character removed.
  For the first variant the group is the rest of the line after the first fence.
\<close>

theorem note_text_from_string:
  "((\<forall>exp \<in> set noteExps. \<not> MatchString exp s)
      \<longrightarrow> NoteTextFromString s = Inl (ErrorsNew noMatchNote))
   \<and> (\<forall>i < length noteExps.
         MatchString (noteExps ! i) s \<and> (\<forall>j < i. \<not> MatchString (noteExps ! j) s)
         \<longrightarrow> NoteTextFromString s = Inr (cleanNote (FindStringSubmatch (noteExps ! i) s ! 1)))
   \<and> (\<forall>pre line rest.
         s = pre @ ''```release-note'' @ [CR, LF] @ line @ rest \<and> CHR 0x60 \<notin> set pre
         \<and> line \<noteq> [] \<and> LF \<notin> set line \<and> (rest = [] \<or> hd rest = LF)
         \<longrightarrow> NoteTextFromString s = Inr (cleanNote line))"
proof (intro conjI allI impI)
  assume "\<forall>exp \<in> set noteExps. \<not> MatchString exp s"
  then show "NoteTextFromString s = Inl (ErrorsNew noMatchNote)"
    unfolding NoteTextFromString_def by (rule noteLoop_nomatch)
next
  fix i
  assume "i < length noteExps"
    and "MatchString (noteExps ! i) s \<and> (\<forall>j < i. \<not> MatchString (noteExps ! j) s)"
  then show "NoteTextFromString s = Inr (cleanNote (FindStringSubmatch (noteExps ! i) s ! 1))"
    using NoteTextFromString_first by blast
next
  fix pre line rest
  assume a: "s = pre @ ''```release-note'' @ [CR, LF] @ line @ rest \<and> CHR 0x60 \<notin> set pre
         \<and> line \<noteq> [] \<and> LF \<notin> set line \<and> (rest = [] \<or> hd rest = LF)"
  then have a1: "s = pre @ ''```release-note'' @ [CR, LF] @ line @ rest"
    and a2: "CHR 0x60 \<notin> set pre" and a3: "line \<noteq> []" and a4: "LF \<notin> set line"
    and a5: "rest = [] \<or> hd rest = LF" by blast+
  show "NoteTextFromString s = Inr (cleanNote line)"
    by (rule NoteTextFromString_fence[OF a1 a2 a3 a4 a5])
qed

theorem note_text_from_string_witness:
  "stanzaBody = (''What changed:'' @ [CR, LF]) @ ''```release-note'' @ [CR, LF]
                  @ (''[ACTION REQUIRED] * Use the new flag'' @ [CR, CR]) @ ([LF] @ ''```'')
   \<and> cleanNote (''[ACTION REQUIRED] * Use the new flag'' @ [CR, CR]) = ''Use the new flag''
   \<and> NoteTextFromString stanzaBody = Inr ''Use the new flag''
   \<and> map (\<lambda>exp. MatchString exp ''no stanza'') noteExps = [False, False, False, False]
   \<and> NoteTextFromString ''no stanza'' = Inl (ErrorsNew noMatchNote)
   \<and> \<not> MatchString (noteExps ! 0) (''```'' @ [CR, LF] @ ''abc'' @ [CR, LF] @ ''```'')
   \<and> \<not> MatchString (noteExps ! 1) (''```'' @ [CR, LF] @ ''abc'' @ [CR, LF] @ ''```'')
   \<and> MatchString (noteExps ! 2) (''```'' @ [CR, LF] @ ''abc'' @ [CR, LF] @ ''```'')
   \<and> NoteTextFromString (''```'' @ [CR, LF] @ ''abc'' @ [CR, LF] @ ''```'') = Inr ''abc''"
proof -
  let ?line = "''[ACTION REQUIRED] * Use the new flag'' @ [CR, CR]"
  let ?bare = "''```'' @ [CR, LF] @ ''abc'' @ [CR, LF] @ ''```''"
  have h1: "stanzaBody = (''What changed:'' @ [CR, LF]) @ ''```release-note'' @ [CR, LF]
                  @ ?line @ ([LF] @ ''```'')"
    by code_simp
  have h2: "CHR 0x60 \<notin> set (''What changed:'' @ [CR, LF])" "?line \<noteq> []" "LF \<notin> set ?line"
    "[LF] @ ''```'' = [] \<or> hd ([LF] @ ''```'') = LF"
    by simp_all
  have h3: "cleanNote ?line = ''Use the new flag''"
    by code_simp
  have h4': "map (\<lambda>exp. MatchString exp ''no stanza'') noteExps = [False, False, False, False]"
    by code_simp
  have h4: "\<forall>exp \<in> set noteExps. \<not> MatchString exp ''no stanza''"
  proof
    fix exp assume "exp \<in> set noteExps"
    then have "MatchString exp ''no stanza'' \<in> set (map (\<lambda>exp. MatchString exp ''no stanza'') noteExps)"
      by (rule imageI[of exp "set noteExps" "\<lambda>exp. MatchString exp ''no stanza''", folded set_map])
    then show "\<not> MatchString exp ''no stanza''" unfolding h4' by simp
  qed
  have h5: "\<not> MatchString (noteExps ! 0) ?bare" "\<not> MatchString (noteExps ! 1) ?bare"
    "MatchString (noteExps ! 2) ?bare"
    by code_simp+
  have h6: "cleanNote (FindStringSubmatch (noteExps ! 2) ?bare ! 1) = ''abc''"
    by code_simp
  have h7: "(2::nat) < length noteExps" by (simp add: noteExps_def)
  have h8: "\<forall>j < (2::nat). \<not> MatchString (noteExps ! j) ?bare"
    using h5(1,2) by (auto simp: less_Suc_eq numeral_2_eq_2)
  note t1 = note_text_from_string[of stanzaBody]
  note t2 = note_text_from_string[of "''no stanza''"]
  note t3 = note_text_from_string[of ?bare]
  from t1 h1 h2 have "NoteTextFromString stanzaBody = Inr (cleanNote ?line)" by blast
  with h3 have a: "NoteTextFromString stanzaBody = Inr ''Use the new flag''" by simp
  from t2 h4 have b: "NoteTextFromString ''no stanza'' = Inl (ErrorsNew noMatchNote)" by blast
  from t3 h5(3) h7 h8
  have "NoteTextFromString ?bare = Inr (cleanNote (FindStringSubmatch (noteExps ! 2) ?bare ! 1))"
    by blast
  with h6 have c: "NoteTextFromString ?bare = Inr ''abc''" by simp
  from h1 h3 a h4' b h5 c show ?thesis by blast
qed

text \<open>
  C3 as stated fails: a bullet in the middle of the line is removed although it does not
  lead the line, and two trailing carriage returns are both trimmed.
\<close>

theorem note_text_not_only_leading_counterexample:
  "FindStringSubmatch (noteExps ! 0) bulletBody ! 1 = ''use a * b here''
   \<and> NoteTextFromString bulletBody = Inr ''use a b here''
   \<and> claimedCleanNote ''use a * b here'' = ''use a * b here''
   \<and> FindStringSubmatch (noteExps ! 0) twoCRBody ! 1 = ''note'' @ [CR, CR]
   \<and> NoteTextFromString twoCRBody = Inr ''note''
   \<and> claimedCleanNote (''note'' @ [CR, CR]) = ''note'' @ [CR]"
  by code_simp

section \<open>The commits with notes\<close>

text \<open>The loop over the inclusion filters appends the commit once for every filter that
  matches the body; the first filter matches every body, so that is at least once and at
  most three times.\<close>

lemma includedLoop_replicate:
  "includedLoop filters body commit acc =
     acc @ replicate (length (filter (\<lambda>flt. MatchString flt body) filters)) commit"
proof (induction filters arbitrary: acc)
  case Nil
  then show ?case by simp
next
  case (Cons flt filters)
  then show ?case by (simp add: replicate_app_Cons_same)
qed

lemma match_all: "MatchString (Star Dot) body"
proof -
  obtain more where "ms (Star Dot) body Map.empty = (dropWhile (\<lambda>c. c \<noteq> LF) body, Map.empty) # more"
    using ms_Star_Dot_hd by blast
  then have "search (Star Dot) body \<noteq> None" by (cases body) simp_all
  then show ?thesis by (simp add: MatchString_def)
qed

lemma inclusion_count:
  "1 \<le> length (filter (\<lambda>flt. MatchString flt body) inclusionFilters)
   \<and> length (filter (\<lambda>flt. MatchString flt body) inclusionFilters) \<le> 3"
  using match_all[of body] by (simp add: inclusionFilters_def)

lemma excludedLoop_iff: "excludedLoop filters body = (\<exists>flt \<in> set filters. MatchString flt body)"
  by (induction filters) auto

text \<open>The commit of the specification's scenario, whose pull request has a stanza
  reading \<open>NONE\<close>, is dropped.\<close>

lemma none_stanza_excluded:
  "excludedLoop exclusionFilters (pr_Body widgetPR)
   \<and> commitsLoop widgetClient [] [widgetCommit] [] 0 = ([], 1)"
  by code_simp

text \<open>
  C1 fails on the program. The pull request of the one commit of this run has a body with
  a release-note stanza; no exclusion filter matches it, and two of the three inclusion
  filters do (the match-all and \<open>release-note\<close>). The loop over the inclusion filters
  appends the commit at each, so \<open>ListCommitsWithNotes\<close> returns it twice.
\<close>

theorem commit_listed_twice:
  "ListCommits stanzaClient ''s'' ''t'' [] 0 = (Inr [stanzaCommit], 3)
   \<and> PRFromCommit stanzaClient stanzaCommit [] 3 = (Inr stanzaPR, 4)
   \<and> \<not> excludedLoop exclusionFilters (pr_Body stanzaPR)
   \<and> map (\<lambda>flt. MatchString flt (pr_Body stanzaPR)) inclusionFilters = [True, True, False]
   \<and> ListCommitsWithNotes stanzaClient ''s'' ''t'' [] 0 = (Inr [stanzaCommit, stanzaCommit], 4)"
  by code_simp

end
